theory Spec2Isabelle
  imports Main
begin

section \<open>Python strings\<close>

text \<open>
  A Python \<open>str\<close> is a sequence of code points. Page text, lines and ids are modelled
  as \<open>string\<close>, a list of 8-bit characters read as the code points U+0000 to U+00FF
  (Latin-1); the functions below are \<open>str.isspace\<close>, \<open>str.lower\<close>, \<open>str.upper\<close>,
  \<open>str.strip\<close>, \<open>str.splitlines\<close> and \<open>str.startswith\<close> on that range. Code points
  above U+00FF are outside the model.
\<close>

definition is_space :: "char \<Rightarrow> bool" where
  \<comment> \<open>\<open>str.isspace\<close> and the regular expression class \<open>\s\<close> on a \<open>str\<close> pattern:
      U+0009..U+000D, U+001C..U+0020, U+0085, U+00A0.\<close>
  "is_space c =
     (let n = (of_char c :: nat)
      in (9 \<le> n \<and> n \<le> 13) \<or> (28 \<le> n \<and> n \<le> 32) \<or> n = 133 \<or> n = 160)"

definition is_linebreak :: "char \<Rightarrow> bool" where
  \<comment> \<open>the line boundaries of \<open>str.splitlines\<close> other than the pair CR LF:
      LF, VT, FF, CR, FS, GS, RS, NEL.\<close>
  "is_linebreak c =
     (let n = (of_char c :: nat)
      in (10 \<le> n \<and> n \<le> 13) \<or> (28 \<le> n \<and> n \<le> 30) \<or> n = 133)"

definition is_digit :: "char \<Rightarrow> bool" where
  \<comment> \<open>the class \<open>\d\<close>: the decimal digits below U+0100 are \<open>0\<close> to \<open>9\<close>.\<close>
  "is_digit c = (let n = (of_char c :: nat) in 48 \<le> n \<and> n \<le> 57)"

definition lower_char :: "char \<Rightarrow> char" where
  "lower_char c =
     (let n = (of_char c :: nat)
      in if (65 \<le> n \<and> n \<le> 90) \<or> (192 \<le> n \<and> n \<le> 222 \<and> n \<noteq> 215)
         then char_of (n + 32) else c)"

definition lower :: "string \<Rightarrow> string" where
  "lower s = map lower_char s"

definition upper_char :: "char \<Rightarrow> nat list" where
  \<comment> \<open>\<open>str.upper\<close> leaves Latin-1 at U+00B5 and U+00FF and maps U+00DF to \<open>SS\<close>,
      so the result is a list of code points.\<close>
  "upper_char c =
     (let n = (of_char c :: nat)
      in if (97 \<le> n \<and> n \<le> 122) \<or> (224 \<le> n \<and> n \<le> 254 \<and> n \<noteq> 247) then [n - 32]
         else if n = 181 then [924]
         else if n = 223 then [83, 83]
         else if n = 255 then [376]
         else [n])"

definition upper :: "string \<Rightarrow> nat list" where
  "upper s = concat (map upper_char s)"

definition code_points :: "string \<Rightarrow> nat list" where
  "code_points s = map of_char s"

fun startswith :: "'a list \<Rightarrow> 'a list \<Rightarrow> bool" where
  "startswith s [] = True"
| "startswith [] (p # ps) = False"
| "startswith (c # cs) (p # ps) = (c = p \<and> startswith cs ps)"

fun contains :: "'a list \<Rightarrow> 'a list \<Rightarrow> bool" where
  \<comment> \<open>\<open>sub in s\<close>\<close>
  "contains [] sub = (sub = [])"
| "contains (c # cs) sub = (startswith (c # cs) sub \<or> contains cs sub)"

definition strip :: "string \<Rightarrow> string" where
  "strip s = rev (dropWhile is_space (rev (dropWhile is_space s)))"

fun splitlines_from :: "string \<Rightarrow> string \<Rightarrow> string list" where
  \<comment> \<open>first argument: the current line so far, reversed\<close>
  "splitlines_from cur [] = (if cur = [] then [] else [rev cur])"
| "splitlines_from cur [c] =
     (if is_linebreak c then [rev cur] else [rev (c # cur)])"
| "splitlines_from cur (c # d # cs) =
     (if c = CHR 0x0D \<and> d = CHR 0x0A then rev cur # splitlines_from [] cs
      else if is_linebreak c then rev cur # splitlines_from [] (d # cs)
      else splitlines_from (c # cur) (d # cs))"

definition splitlines :: "string \<Rightarrow> string list" where
  "splitlines s = splitlines_from [] s"

definition nonempty_lines :: "string \<Rightarrow> string list" where
  \<comment> \<open>\<open>[line.strip() for line in text.splitlines() if line.strip()]\<close>\<close>
  "nonempty_lines text = filter (\<lambda>l. l \<noteq> []) (map strip (splitlines text))"

function split_runs_from :: "(char \<Rightarrow> bool) \<Rightarrow> string \<Rightarrow> string \<Rightarrow> string list" where
  \<comment> \<open>splitting at the maximal runs of two or more characters of a class, as \<open>re.split\<close>
      with a greedy pattern \<open>X{2,}\<close> does; second argument: the current piece so far,
      reversed\<close>
  "split_runs_from sep cur [] = [rev cur]"
| "split_runs_from sep cur [c] = [rev (c # cur)]"
| "split_runs_from sep cur (c # d # cs) =
     (if sep c \<and> sep d then rev cur # split_runs_from sep [] (dropWhile sep cs)
      else split_runs_from sep (c # cur) (d # cs))"
  by pat_completeness auto
termination
  by (relation "measure (\<lambda>(sep, cur, s). length s)")
     (auto simp: length_dropWhile_le less_Suc_eq_le le_SucI)

definition re_split_ws2 :: "string \<Rightarrow> string list" where
  \<comment> \<open>\<open>re.split(r'\s{2,}', s)\<close>\<close>
  "re_split_ws2 s = split_runs_from is_space [] s"

section \<open>Page Classifier: \<open>parse_tfl_page\<close>\<close>

record parsed_page =
  p_id :: "string option"
  p_type :: "string option"
  p_title :: string
  p_population :: string
  p_source_program :: string

definition heading_match :: "string \<Rightarrow> bool" where
  \<comment> \<open>\<open>re.match(r'^(Table|Figure)\s*14[.\-][\d.\-]+', line, re.IGNORECASE)\<close>\<close>
  "heading_match line =
     (let rest = (if lower (take 5 line) = ''table'' then Some (drop 5 line)
                  else if lower (take 6 line) = ''figure'' then Some (drop 6 line)
                  else None)
      in case rest of
           None \<Rightarrow> False
         | Some r \<Rightarrow>
             (case dropWhile is_space r of
                c1 # c4 # sep # g # _ \<Rightarrow>
                  c1 = CHR ''1'' \<and> c4 = CHR ''4'' \<and> (sep = CHR ''.'' \<or> sep = CHR ''-'')
                  \<and> (is_digit g \<or> g = CHR ''.'' \<or> g = CHR ''-'')
              | _ \<Rightarrow> False))"

fun find_heading :: "nat \<Rightarrow> string list \<Rightarrow> (nat \<times> string) option" where
  \<comment> \<open>the loop over \<open>enumerate(lines[:10])\<close> with its \<open>break\<close>: index and line of the
      first match\<close>
  "find_heading i [] = None"
| "find_heading i (line # rest) =
     (if heading_match line then Some (i, line) else find_heading (Suc i) rest)"

fun find_population :: "string list \<Rightarrow> string" where
  "find_population [] = []"
| "find_population (line # rest) =
     (if startswith (lower line) ''population:''
      then strip (tl (dropWhile (\<lambda>c. c \<noteq> CHR '':'') line))
      else find_population rest)"

fun find_source_program :: "string list \<Rightarrow> string" where
  \<comment> \<open>the loop over \<open>reversed(lines[-15:])\<close>; the argument is already reversed\<close>
  "find_source_program [] = []"
| "find_source_program (line # rest) =
     (if startswith (lower line) ''source:''
      then (let part = strip (drop (length ''source:'') line);
                parts = re_split_ws2 part
            in if parts \<noteq> [] then hd parts else [])
      else find_source_program rest)"

definition last_lines :: "nat \<Rightarrow> 'a list \<Rightarrow> 'a list" where
  \<comment> \<open>\<open>lines[-n:]\<close> for \<open>n > 0\<close>\<close>
  "last_lines n xs = drop (length xs - n) xs"

definition parse_lines :: "string list \<Rightarrow> parsed_page" where
  "parse_lines lines =
     (let found = find_heading 0 (take 10 lines);
          title = (case found of
                     None \<Rightarrow> []
                   | Some (i, _) \<Rightarrow> if i + 1 < length lines then lines ! (i + 1) else [])
      in \<lparr> p_id = map_option snd found,
           p_type = map_option (\<lambda>(_, line).
                       if contains (lower line) ''table'' then ''table'' else ''figure'') found,
           p_title = title,
           p_population = find_population (take 10 lines),
           p_source_program = find_source_program (rev (last_lines 15 lines)) \<rparr>)"

definition parse_tfl_page :: "string \<Rightarrow> parsed_page" where
  "parse_tfl_page text = parse_lines (nonempty_lines text)"

section \<open>Termination Detector\<close>

definition is_termination_line :: "string \<Rightarrow> bool" where
  "is_termination_line line =
     (let upper_line = upper line
      in startswith upper_line (code_points ''15. REFERENCE'')
         \<or> upper_line = code_points ''15.''
         \<or> startswith upper_line (code_points ''16. APPEND'')
         \<or> upper_line = code_points ''16.'')"

fun any_termination_line :: "string list \<Rightarrow> bool" where
  \<comment> \<open>the loop over \<open>lines[:20]\<close> that sets \<open>is_termination\<close> and breaks\<close>
  "any_termination_line [] = False"
| "any_termination_line (line # rest) =
     (if is_termination_line line then True else any_termination_line rest)"

definition is_termination :: "string \<Rightarrow> bool" where
  "is_termination text = any_termination_line (take 20 (nonempty_lines text))"

section \<open>Segmentation Engine: the page loop of \<open>extract_tlfs\<close>\<close>

text \<open>
  A TLF record is the dict built at the source's \<open>current_tfl = {...}\<close>. The key
  \<open>source_program\<close> is only set when the parsed value is non-empty, hence the option.
  \<open>pages_in_source\<close> is the two-element list \<open>[first, last]\<close> of 1-based page numbers.
\<close>

record tfl =
  t_id :: string
  t_type :: "string option"
  t_title :: string
  t_file :: string
  t_pages_in_source :: "int list"
  t_page_count :: int
  t_population :: string
  t_source_program :: "string option"

datatype log_msg =
    ErrorInputNotFound string
  | ErrorTooFewPages int
  | InfoNarrative
  | InfoTermination int
  | InfoFound string int int
  | WarningNoId int
  | WarningTextFailed string

text \<open>
  The loop's variables. \<open>current_tfl\<close> is, in the source, a reference to the dict that
  was appended to \<open>tlfs\<close>; here it is the index of that dict in \<open>tlfs\<close>, so that
  an update through \<open>current_tfl\<close> is an update of the list element, as in Python.
\<close>

record scan_state =
  tlfs :: "tfl list"
  current_tfl :: "nat option"
  warnings :: int
  tfl_pages_total :: int
  table_count :: int
  figure_count :: int
  log :: "log_msg list"

definition init_state :: "log_msg list \<Rightarrow> scan_state" where
  "init_state l = \<lparr> tlfs = [], current_tfl = None, warnings = 0, tfl_pages_total = 0,
                    table_count = 0, figure_count = 0, log = l \<rparr>"

definition first_page :: "tfl \<Rightarrow> int" where
  "first_page r = t_pages_in_source r ! 0"

definition last_page :: "tfl \<Rightarrow> int" where
  "last_page r = t_pages_in_source r ! 1"

definition safe_id :: "string \<Rightarrow> string" where
  \<comment> \<open>\<open>tfl_id.replace(" ", "_").replace("\n", "")\<close>\<close>
  "safe_id tfl_id =
     filter (\<lambda>c. c \<noteq> CHR 0x0A) (map (\<lambda>c. if c = CHR '' '' then CHR ''_'' else c) tfl_id)"

definition out_file_name :: "string \<Rightarrow> string" where
  "out_file_name tfl_id = ''pdf/'' @ safe_id tfl_id @ ''.pdf''"

definition extend_current :: "scan_state \<Rightarrow> nat \<Rightarrow> int \<Rightarrow> scan_state" where
  \<comment> \<open>\<open>current_tfl['pages_in_source'][1] = page_num + 1; current_tfl['page_count'] += 1;
      tfl_pages_total += 1\<close>\<close>
  "extend_current st k page_num =
     (let cur = tlfs st ! k;
          cur' = cur\<lparr> t_pages_in_source := (t_pages_in_source cur)[1 := page_num + 1],
                      t_page_count := t_page_count cur + 1 \<rparr>
      in st\<lparr> tlfs := (tlfs st)[k := cur'], tfl_pages_total := tfl_pages_total st + 1 \<rparr>)"

definition found_msg :: "bool \<Rightarrow> scan_state \<Rightarrow> log_msg list" where
  \<comment> \<open>\<open>if verbose and current_tfl: logger.info(f"Found ...")\<close>\<close>
  "found_msg verbose st =
     (case current_tfl st of
        Some k \<Rightarrow> if verbose
                  then [InfoFound (t_id (tlfs st ! k)) (first_page (tlfs st ! k))
                                  (last_page (tlfs st ! k))]
                  else []
      | None \<Rightarrow> [])"

definition open_new :: "bool \<Rightarrow> scan_state \<Rightarrow> int \<Rightarrow> string \<Rightarrow> parsed_page \<Rightarrow> scan_state" where
  "open_new verbose st page_num tfl_id parsed =
     (let new = \<lparr> t_id = tfl_id,
                  t_type = p_type parsed,
                  t_title = p_title parsed,
                  t_file = out_file_name tfl_id,
                  t_pages_in_source = [page_num + 1, page_num + 1],
                  t_page_count = 1,
                  t_population = p_population parsed,
                  t_source_program = (if p_source_program parsed \<noteq> []
                                      then Some (p_source_program parsed) else None) \<rparr>
      in st\<lparr> log := log st @ found_msg verbose st,
             tlfs := tlfs st @ [new],
             current_tfl := Some (length (tlfs st)),
             tfl_pages_total := tfl_pages_total st + 1,
             table_count := (if p_type parsed = Some ''table''
                             then table_count st + 1 else table_count st),
             figure_count := (if p_type parsed = Some ''table''
                              then figure_count st else figure_count st + 1) \<rparr>)"

definition no_id_page :: "scan_state \<Rightarrow> int \<Rightarrow> scan_state" where
  \<comment> \<open>the branch \<open>if not tfl_id: ... continue\<close>\<close>
  "no_id_page st page_num =
     (case current_tfl st of
        Some k \<Rightarrow> extend_current st k page_num
      | None \<Rightarrow>
          if length (tlfs st) = 0
          then st\<lparr> log := log st @ [WarningNoId (page_num + 1)], warnings := warnings st + 1 \<rparr>
          else st)"

definition scan_page :: "bool \<Rightarrow> scan_state \<Rightarrow> int \<Rightarrow> string \<Rightarrow> scan_state" where
  \<comment> \<open>one iteration of the loop for a page that is not a termination page;
      \<open>not tfl_id\<close> holds for \<open>None\<close> and for the empty string\<close>
  "scan_page verbose st page_num text =
     (let parsed = parse_tfl_page text
      in case p_id parsed of
           None \<Rightarrow> no_id_page st page_num
         | Some tfl_id \<Rightarrow>
             if tfl_id = [] then no_id_page st page_num
             else (case current_tfl st of
                     Some k \<Rightarrow>
                       if t_id (tlfs st ! k) = tfl_id then extend_current st k page_num
                       else open_new verbose st page_num tfl_id parsed
                   | None \<Rightarrow> open_new verbose st page_num tfl_id parsed))"

fun scan_loop :: "bool \<Rightarrow> scan_state \<Rightarrow> int \<Rightarrow> string list \<Rightarrow> scan_state" where
  \<comment> \<open>\<open>for page_num in range(42, total_pages)\<close> over the texts of the remaining pages;
      \<open>page_num\<close> is the 0-based index of the head of the list\<close>
  "scan_loop verbose st page_num [] = st"
| "scan_loop verbose st page_num (text # rest) =
     (if is_termination text
      then st\<lparr> log := log st @ (if verbose then [InfoTermination (page_num + 1)] else []) \<rparr>
      else scan_loop verbose (scan_page verbose st page_num text) (page_num + 1) rest)"

definition segment :: "bool \<Rightarrow> string list \<Rightarrow> scan_state" where
  \<comment> \<open>the scan of a document given as the list of its page texts: the state after
      the loop, started as \<open>extract_tlfs\<close> starts it\<close>
  "segment verbose doc =
     scan_loop verbose (init_state (if verbose then [InfoNarrative] else [])) 42 (drop 42 doc)"

section \<open>Extraction Driver: \<open>extract_tlfs\<close>\<close>

text \<open>
  The clock value \<open>datetime.now(timezone.utc)\<close>: an aware datetime with offset zero.
\<close>

record datetime =
  year :: nat
  month :: nat
  day :: nat
  hour :: nat
  minute :: nat
  second :: nat
  microsecond :: nat

definition digit_char :: "nat \<Rightarrow> char" where
  "digit_char d = char_of (48 + d)"

function str_nat :: "nat \<Rightarrow> string" where
  "str_nat n = (if n < 10 then [digit_char n] else str_nat (n div 10) @ [digit_char (n mod 10)])"
  by pat_completeness auto
termination
  by (relation "measure id") auto

declare str_nat.simps [simp del]

definition zpad :: "nat \<Rightarrow> nat \<Rightarrow> string" where
  \<comment> \<open>the format \<open>%0wd\<close>\<close>
  "zpad w n = replicate (w - length (str_nat n)) (CHR ''0'') @ str_nat n"

definition isoformat :: "datetime \<Rightarrow> string" where
  \<comment> \<open>\<open>datetime.isoformat()\<close> of an aware UTC datetime: the fraction is printed only
      when \<open>microsecond\<close> is not zero\<close>
  "isoformat dt =
     zpad 4 (year dt) @ ''-'' @ zpad 2 (month dt) @ ''-'' @ zpad 2 (day dt) @ ''T''
     @ zpad 2 (hour dt) @ '':'' @ zpad 2 (minute dt) @ '':'' @ zpad 2 (second dt)
     @ (if microsecond dt \<noteq> 0 then ''.'' @ zpad 6 (microsecond dt) else [])
     @ ''+00:00''"

definition extraction_date_of :: "datetime \<Rightarrow> string" where
  \<comment> \<open>\<open>datetime.now(timezone.utc).isoformat()[:-13] + "Z"\<close>\<close>
  "extraction_date_of now = (let s = isoformat now in take (length s - 13) s @ ''Z'')"

record narrative_rec =
  n_file :: string
  n_pages_in_source :: "int list"
  n_page_count :: int

record manifest =
  source_file :: string
  source_pages :: int
  extraction_date :: string
  narrative :: narrative_rec
  m_tlfs :: "tfl list"





definition path_join :: "string \<Rightarrow> string \<Rightarrow> string" where
  \<comment> \<open>\<open>os.path.join\<close> of two components (POSIX)\<close>
  "path_join a b =
     (if startswith b ''/'' then b
      else if a = [] \<or> last a = CHR ''/'' then a @ b
      else a @ ''/'' @ b)"

definition basename :: "string \<Rightarrow> string" where
  "basename p = rev (takeWhile (\<lambda>c. c \<noteq> CHR ''/'') (rev p))"








definition build_manifest :: "datetime \<Rightarrow> string \<Rightarrow> int \<Rightarrow> tfl list \<Rightarrow> manifest" where
  "build_manifest now doc_name total_pages ts =
     \<lparr> source_file = doc_name,
       source_pages = total_pages,
       extraction_date = extraction_date_of now,
       narrative = \<lparr> n_file = ''pdf/narrative_body.pdf'', n_pages_in_source = [1, 42],
                     n_page_count = 42 \<rparr>,
       m_tlfs = ts \<rparr>"






section \<open>Validator: the TLF loop of \<open>run_validation\<close>\<close>

text \<open>
  An entry of the manifest's \<open>tlfs\<close> array as read back from JSON: any key may be
  missing. The model covers entries whose \<open>pages_in_source\<close> is a list of integers.
\<close>

record json_tfl =
  j_id :: "string option"
  j_file :: "string option"
  j_pages_in_source :: "int list option"
  j_page_count :: "int option"

datatype py_error = ValueError | KeyError

datatype check_key =
    Files_exist | Files_non_empty | Page_count_match | No_page_gaps | No_page_overlaps
  | Narrative_ok | Pdfs_readable

text \<open>
  The failure messages given to \<open>log_fail\<close>, with the values their f-strings insert.
\<close>

datatype finding =
    PageGap string int int
  | PageOverlap string int int
  | FileMissing string string
  | FileEmpty string string
  | PageCountMismatch string int int
  | FileUnreadable string string

text \<open>
  What the filesystem and the PDF library answer for a path: \<open>os.path.exists\<close>,
  \<open>os.path.getsize\<close>, and \<open>len(fitz.open(path))\<close> or its exception.
\<close>

datatype file_status = Missing | EmptyFile | Unreadable | Pdf int

record vstate =
  checks :: "check_key \<Rightarrow> bool"
  msgs :: "finding list"
  expected_next_page :: "int option"

definition log_fail :: "check_key \<Rightarrow> finding \<Rightarrow> vstate \<Rightarrow> vstate" where
  "log_fail check_key msg st = st\<lparr> checks := (checks st)(check_key := False),
                                   msgs := msgs st @ [msg] \<rparr>"

definition unpack_pages :: "json_tfl \<Rightarrow> py_error + (int \<times> int)" where
  \<comment> \<open>\<open>start_p, end_p = tfl.get("pages_in_source", [0, 0])\<close>\<close>
  "unpack_pages t =
     (case (case j_pages_in_source t of None \<Rightarrow> [0, 0] | Some l \<Rightarrow> l) of
        [a, b] \<Rightarrow> Inr (a, b)
      | _ \<Rightarrow> Inl ValueError)"

definition get_id :: "json_tfl \<Rightarrow> py_error + string" where
  \<comment> \<open>\<open>tfl['id']\<close>\<close>
  "get_id t = (case j_id t of None \<Rightarrow> Inl KeyError | Some i \<Rightarrow> Inr i)"

definition check_pages :: "vstate \<Rightarrow> json_tfl \<Rightarrow> py_error + vstate" where
  "check_pages st t =
     (case unpack_pages t of
        Inl e \<Rightarrow> Inl e
      | Inr (start_p, end_p) \<Rightarrow>
          (case (case expected_next_page st of
                   None \<Rightarrow> Inr st
                 | Some expected \<Rightarrow>
                     if start_p > expected
                     then (case get_id t of
                             Inl e \<Rightarrow> Inl e
                           | Inr i \<Rightarrow> Inr (log_fail No_page_gaps (PageGap i expected start_p) st))
                     else if start_p < expected
                     then (case get_id t of
                             Inl e \<Rightarrow> Inl e
                           | Inr i \<Rightarrow>
                               Inr (log_fail No_page_overlaps (PageOverlap i expected start_p) st))
                     else Inr st) of
             Inl e \<Rightarrow> Inl e
           | Inr st' \<Rightarrow> Inr (st'\<lparr> expected_next_page := Some (end_p + 1) \<rparr>)))"

definition check_file :: "(string \<Rightarrow> file_status) \<Rightarrow> string \<Rightarrow> vstate \<Rightarrow> json_tfl \<Rightarrow> py_error + vstate" where
  "check_file probe output_dir st t =
     (let f_path = path_join output_dir (case j_file t of None \<Rightarrow> [] | Some f \<Rightarrow> f);
          p_count = (case j_page_count t of None \<Rightarrow> 0 | Some c \<Rightarrow> c)
      in case probe f_path of
           Missing \<Rightarrow>
             (case get_id t of
                Inl e \<Rightarrow> Inl e
              | Inr i \<Rightarrow> Inr (log_fail Files_exist (FileMissing i f_path) st))
         | EmptyFile \<Rightarrow>
             (case get_id t of
                Inl e \<Rightarrow> Inl e
              | Inr i \<Rightarrow> Inr (log_fail Files_non_empty (FileEmpty i f_path) st))
         | Pdf n \<Rightarrow>
             if n \<noteq> p_count
             then Inr (log_fail Page_count_match (PageCountMismatch (basename f_path) n p_count) st)
             else Inr st
         | Unreadable \<Rightarrow>
             (case get_id t of
                Inl e \<Rightarrow> Inl e
              | Inr i \<Rightarrow> Inr (log_fail Pdfs_readable (FileUnreadable i f_path) st)))"

fun validate_tlfs ::
  "(string \<Rightarrow> file_status) \<Rightarrow> string \<Rightarrow> vstate \<Rightarrow> json_tfl list \<Rightarrow> py_error + vstate" where
  \<comment> \<open>\<open>for tfl in tlfs\<close>\<close>
  "validate_tlfs probe output_dir st [] = Inr st"
| "validate_tlfs probe output_dir st (t # ts) =
     (case check_pages st t of
        Inl e \<Rightarrow> Inl e
      | Inr st1 \<Rightarrow>
          (case check_file probe output_dir st1 t of
             Inl e \<Rightarrow> Inl e
           | Inr st2 \<Rightarrow> validate_tlfs probe output_dir st2 ts))"

definition init_vstate :: "(check_key \<Rightarrow> bool) \<Rightarrow> finding list \<Rightarrow> vstate" where
  \<comment> \<open>the state at \<open>expected_next_page = None\<close>, after the narrative checks\<close>
  "init_vstate c m = \<lparr> checks = c, msgs = m, expected_next_page = None \<rparr>"

definition str_int :: "int \<Rightarrow> string" where
  "str_int n = (if n < 0 then ''-'' @ str_nat (nat (- n)) else str_nat (nat n))"

definition render_finding :: "finding \<Rightarrow> string" where
  \<comment> \<open>the text given to \<open>log_fail\<close>, which stores it after a cross mark and a space\<close>
  "render_finding f =
     (case f of
        PageGap i e g \<Rightarrow>
          ''Page gap before '' @ i @ '' (expected '' @ str_int e @ '', got '' @ str_int g @ '')''
      | PageOverlap i e g \<Rightarrow>
          ''Page overlap at '' @ i @ '' (expected '' @ str_int e @ '', got '' @ str_int g @ '')''
      | FileMissing i p \<Rightarrow> ''File missing for '' @ i @ '': '' @ p
      | FileEmpty i p \<Rightarrow> ''File empty for '' @ i @ '': '' @ p
      | PageCountMismatch b n c \<Rightarrow>
          ''Page count mismatch: '' @ b @ '' has '' @ str_int n
          @ '' pages but manifest says '' @ str_int c
      | FileUnreadable i p \<Rightarrow> ''File unreadable for '' @ i @ '': '' @ p)"

section \<open>Notions used to state the properties\<close>

subsection \<open>The specification's wording\<close>

definition spec_sanitize :: "string \<Rightarrow> string" where
  \<comment> \<open>"remove spaces and embedded newlines from the id"\<close>
  "spec_sanitize i = filter (\<lambda>c. c \<noteq> CHR '' '' \<and> c \<noteq> CHR 0x0A) i"

definition first_token :: "string list \<Rightarrow> string" where
  \<comment> \<open>the first non-empty piece of a split, the empty string when there is none\<close>
  "first_token pieces = (case filter (\<lambda>p. p \<noteq> []) pieces of [] \<Rightarrow> [] | p # _ \<Rightarrow> p)"

definition spec_source_program :: "string list \<Rightarrow> string" where
  \<comment> \<open>"scan the last 15 non-empty lines, in reverse, for a line whose lowercase form
      starts with source:. Take the text after source:, split on runs of two-or-more
      spaces, and take the first token"; the empty string stands for absent\<close>
  "spec_source_program lines =
     (case find (\<lambda>l. startswith (lower l) ''source:'') (rev (last_lines 15 lines)) of
        None \<Rightarrow> []
      | Some l \<Rightarrow> first_token (split_runs_from (\<lambda>c. c = CHR '' '') [] (drop 7 l)))"

fun ws2_index :: "string \<Rightarrow> nat" where
  \<comment> \<open>the position of the first two adjacent whitespace characters, the length of the
      string when there are none\<close>
  "ws2_index [] = 0"
| "ws2_index [c] = 1"
| "ws2_index (c # d # cs) = (if is_space c \<and> is_space d then 0 else Suc (ws2_index (d # cs)))"

fun page_findings :: "(int \<times> int \<times> string) list \<Rightarrow> finding list" where
  \<comment> \<open>"walking the TLF list in manifest order, each record's firstPage must equal the
      previous record's lastPage + 1 (gap if greater, overlap if lesser)", on the list of
      (firstPage, lastPage, id)\<close>
  "page_findings ((f1, l1, i1) # (f2, l2, i2) # rest) =
     (if f2 > l1 + 1 then [PageGap i2 (l1 + 1) f2]
      else if f2 < l1 + 1 then [PageOverlap i2 (l1 + 1) f2]
      else [])
     @ page_findings ((f2, l2, i2) # rest)"
| "page_findings _ = []"

definition is_page_finding :: "finding \<Rightarrow> bool" where
  "is_page_finding f = (case f of PageGap _ _ _ \<Rightarrow> True | PageOverlap _ _ _ \<Rightarrow> True | _ \<Rightarrow> False)"

definition is_gap :: "finding \<Rightarrow> bool" where
  "is_gap f = (case f of PageGap _ _ _ \<Rightarrow> True | _ \<Rightarrow> False)"

definition is_overlap :: "finding \<Rightarrow> bool" where
  "is_overlap f = (case f of PageOverlap _ _ _ \<Rightarrow> True | _ \<Rightarrow> False)"

type_synonym full_entry = "int \<times> int \<times> string \<times> string \<times> int"

definition entry :: "full_entry \<Rightarrow> json_tfl" where
  \<comment> \<open>a manifest entry with all its keys, from (firstPage, lastPage, id, file, page_count)\<close>
  "entry e =
     (case e of (f, l, i, file, n) \<Rightarrow>
        \<lparr> j_id = Some i, j_file = Some file, j_pages_in_source = Some [f, l],
          j_page_count = Some n \<rparr>)"

definition range_of :: "full_entry \<Rightarrow> int \<times> int \<times> string" where
  "range_of e = (case e of (f, l, i, file, n) \<Rightarrow> (f, l, i))"

subsection \<open>Pages folded into records\<close>

definition page_target :: "scan_state \<Rightarrow> string \<Rightarrow> nat option" where
  \<comment> \<open>the record, by its index in \<open>tlfs\<close>, whose \<open>page_count\<close> the iteration
      \<open>scan_page\<close> counts the page in: the open record in the two extending branches, the
      appended record in the opening branch, none where the page is skipped\<close>
  "page_target st text =
     (case p_id (parse_tfl_page text) of
        None \<Rightarrow> current_tfl st
      | Some tfl_id \<Rightarrow>
          if tfl_id = [] then current_tfl st
          else (case current_tfl st of
                  Some k \<Rightarrow> if t_id (tlfs st ! k) = tfl_id then Some k
                            else Some (length (tlfs st))
                | None \<Rightarrow> Some (length (tlfs st))))"

fun fold_trace :: "bool \<Rightarrow> scan_state \<Rightarrow> int \<Rightarrow> string list \<Rightarrow> nat option list" where
  \<comment> \<open>the targets of the pages the loop processes, in page order\<close>
  "fold_trace verbose st page_num [] = []"
| "fold_trace verbose st page_num (text # rest) =
     (if is_termination text then []
      else page_target st text
           # fold_trace verbose (scan_page verbose st page_num text) (page_num + 1) rest)"

definition segment_trace :: "bool \<Rightarrow> string list \<Rightarrow> nat option list" where
  "segment_trace verbose doc =
     fold_trace verbose (init_state (if verbose then [InfoNarrative] else [])) 42 (drop 42 doc)"

definition scanned_pages :: "string list \<Rightarrow> string list" where
  \<comment> \<open>the texts of the pages from page 43 up to the page before the first termination
      page, or up to the last page\<close>
  "scanned_pages doc = takeWhile (\<lambda>t. \<not> is_termination t) (drop 42 doc)"

definition skipped_pages :: "string list \<Rightarrow> string list" where
  \<comment> \<open>the scanned pages before the first one with a TLF id\<close>
  "skipped_pages doc = takeWhile (\<lambda>t. p_id (parse_tfl_page t) = None) (scanned_pages doc)"

definition covers :: "tfl list \<Rightarrow> int \<Rightarrow> bool" where
  "covers ts p = list_ex (\<lambda>r. first_page r \<le> p \<and> p \<le> last_page r) ts"

subsection \<open>Invariant of the scan\<close>

definition rec_ok :: "tfl \<Rightarrow> bool" where
  "rec_ok r = (length (t_pages_in_source r) = 2 \<and> first_page r \<le> last_page r
               \<and> t_page_count r = last_page r - first_page r + 1
               \<and> t_file r = out_file_name (t_id r))"

fun chain :: "tfl list \<Rightarrow> bool" where
  "chain [] = True"
| "chain [r] = True"
| "chain (r # s # rs) = (first_page s = last_page r + 1 \<and> chain (s # rs))"

definition wf_state :: "scan_state \<Rightarrow> int \<Rightarrow> bool" where
  \<comment> \<open>\<open>n\<close> is the number of the last page processed\<close>
  "wf_state st n =
     ((case current_tfl st of None \<Rightarrow> tlfs st = [] | Some k \<Rightarrow> Suc k = length (tlfs st))
      \<and> list_all rec_ok (tlfs st) \<and> chain (tlfs st)
      \<and> (tlfs st \<noteq> [] \<longrightarrow> last_page (last (tlfs st)) = n))"

subsection \<open>Sample inputs\<close>

definition whole_second :: datetime where
  "whole_second = \<lparr> year = 2023, month = 6, day = 2, hour = 12, minute = 34, second = 56,
                    microsecond = 0 \<rparr>"

definition sample_now :: datetime where
  "sample_now = \<lparr> year = 2023, month = 6, day = 2, hour = 12, minute = 34, second = 56,
                  microsecond = 250000 \<rparr>"

definition newline :: string where
  "newline = [CHR 0x0A]"

definition scenario_1_text :: string where
  "scenario_1_text =
     ''Table 14.1.1'' @ newline @ ''Demographics'' @ newline @ ''Population: Safety'' @ newline
     @ ''Age   N   Mean'' @ newline @ ''Source:   prog1.sas   02JUN2023''"

definition late_start_doc :: "string list" where
  \<comment> \<open>44 pages: page 43 has no heading, page 44 opens a table\<close>
  "late_start_doc = replicate 42 [] @ [''Listing of contents'', ''Table 14.1.1'']"

definition sample_doc :: "string list" where
  \<comment> \<open>47 pages: a skipped page 43, a table on pages 44 to 45, a figure on page 46, the
      references on page 47\<close>
  "sample_doc =
     replicate 42 [] @ [''Listing of contents'', scenario_1_text, ''continued'',
                        ''Figure 14.2.1'' @ newline @ ''Survival'', ''15. References'']"





definition all_pdfs :: "string \<Rightarrow> file_status" where
  \<comment> \<open>a filesystem where every path is a readable one-page PDF\<close>
  "all_pdfs path = Pdf 1"

definition all_pass :: "check_key \<Rightarrow> bool" where
  "all_pass k = True"

definition scenario_4 :: "full_entry list" where
  "scenario_4 = [(43, 44, ''A'', ''pdf/A.pdf'', 2), (46, 46, ''B'', ''pdf/B.pdf'', 1)]"

definition late_start_manifest :: "full_entry list" where
  "late_start_manifest = [(50, 50, ''A'', ''pdf/A.pdf'', 1)]"

section \<open>Auxiliary facts\<close>

subsection \<open>Sanitised ids\<close>

lemma safe_id_no_space: "CHR '' '' \<notin> set (safe_id i)"
  by (auto simp: safe_id_def)

lemma safe_id_no_newline: "CHR 0x0A \<notin> set (safe_id i)"
  by (auto simp: safe_id_def)

subsection \<open>One iteration of the scan\<close>

lemma heading_match_Nil: "\<not> heading_match []"
  by (simp add: heading_match_def lower_def)

lemma find_heading_line: "find_heading i ls = Some (j, l) \<Longrightarrow> heading_match l"
  by (induction ls arbitrary: i) (auto split: if_splits)

lemma p_id_heading: "p_id (parse_tfl_page t) = Some l \<Longrightarrow> heading_match l"
  by (auto simp: parse_tfl_page_def parse_lines_def Let_def dest: find_heading_line)

lemma p_id_not_empty: "p_id (parse_tfl_page t) \<noteq> Some []"
  using p_id_heading heading_match_Nil by blast

lemma chain_snoc:
  "chain (xs @ [r]) = (chain xs \<and> (xs \<noteq> [] \<longrightarrow> first_page r = last_page (last xs) + 1))"
  by (induction xs rule: chain.induct) auto

lemma scan_page_cases:
  assumes "wf_state st n"
  obtains
    (skip) "current_tfl st = None" "tlfs st = []" "p_id (parse_tfl_page pg) = None"
      "page_target st pg = None"
      "scan_page v st n pg =
         st\<lparr> log := log st @ [WarningNoId (n + 1)], warnings := warnings st + 1 \<rparr>"
  | (extend) k where "current_tfl st = Some k" "Suc k = length (tlfs st)"
      "page_target st pg = Some k" "scan_page v st n pg = extend_current st k n"
  | (opened) tfl_id where "p_id (parse_tfl_page pg) = Some tfl_id"
      "page_target st pg = Some (length (tlfs st))"
      "scan_page v st n pg = open_new v st n tfl_id (parse_tfl_page pg)"
proof (cases "p_id (parse_tfl_page pg)")
  case None
  show ?thesis
  proof (cases "current_tfl st")
    case N: None
    with assms have "tlfs st = []" by (simp add: wf_state_def)
    with None N show ?thesis
      by (intro skip) (simp_all add: scan_page_def page_target_def no_id_page_def)
  next
    case (Some k)
    with assms have "Suc k = length (tlfs st)" by (simp add: wf_state_def)
    with None Some show ?thesis
      by (intro extend[of k]) (simp_all add: scan_page_def page_target_def no_id_page_def)
  qed
next
  case (Some tfl_id)
  then have ne: "tfl_id \<noteq> []" using p_id_not_empty by metis
  show ?thesis
  proof (cases "current_tfl st")
    case N: None
    with Some ne show ?thesis
      by (intro opened[of tfl_id]) (simp_all add: scan_page_def page_target_def)
  next
    case K: (Some k)
    with assms have len: "Suc k = length (tlfs st)" by (simp add: wf_state_def)
    show ?thesis
    proof (cases "t_id (tlfs st ! k) = tfl_id")
      case True
      with Some ne K len show ?thesis
        by (intro extend[of k]) (simp_all add: scan_page_def page_target_def)
    next
      case False
      with Some ne K show ?thesis
        by (intro opened[of tfl_id]) (simp_all add: scan_page_def page_target_def)
    qed
  qed
qed

lemma extend_current_tlfs:
  assumes "Suc k = length (tlfs st)" "rec_ok (last (tlfs st))" "last_page (last (tlfs st)) = n"
  shows "\<exists>r'. tlfs (extend_current st k n) = butlast (tlfs st) @ [r']
           \<and> first_page r' = first_page (last (tlfs st)) \<and> last_page r' = n + 1
           \<and> t_page_count r' = t_page_count (last (tlfs st)) + 1 \<and> rec_ok r'"
proof -
  from assms(1) have ne: "tlfs st \<noteq> []" by auto
  with assms(1) have k: "k = length (butlast (tlfs st))" by simp
  have nth: "tlfs st ! k = last (tlfs st)"
    using assms(1) ne by (metis diff_Suc_1 last_conv_nth)
  obtain f l where fl: "t_pages_in_source (last (tlfs st)) = [f, l]"
    using assms(2) by (auto simp: rec_ok_def length_Suc_conv numeral_2_eq_2)
  let ?r = "(last (tlfs st))\<lparr> t_pages_in_source := [f, n + 1],
                                t_page_count := t_page_count (last (tlfs st)) + 1 \<rparr>"
  have upd: "(tlfs st)[k := ?r] = butlast (tlfs st) @ [?r]"
  proof -
    have "(butlast (tlfs st) @ [last (tlfs st)])[k := ?r] = butlast (tlfs st) @ [?r]"
      unfolding k by (simp add: list_update_append)
    then show ?thesis using ne by simp
  qed
  have "tlfs (extend_current st k n) = butlast (tlfs st) @ [?r]"
    using upd by (simp add: extend_current_def Let_def nth fl)
  moreover have "first_page ?r = first_page (last (tlfs st))" "last_page ?r = n + 1"
    using fl by (simp_all add: first_page_def last_page_def)
  moreover have "rec_ok ?r"
    using assms(2,3) fl by (auto simp: rec_ok_def first_page_def last_page_def)
  ultimately show ?thesis by (intro exI[of _ ?r]) simp
qed

lemma extend_current_other:
  "current_tfl (extend_current st k n) = current_tfl st"
  "warnings (extend_current st k n) = warnings st"
  by (simp_all add: extend_current_def Let_def)

lemma open_new_tlfs:
  "\<exists>r'. tlfs (open_new v st n i p) = tlfs st @ [r'] \<and> first_page r' = n + 1
        \<and> last_page r' = n + 1 \<and> t_page_count r' = 1 \<and> rec_ok r'"
  by (simp add: open_new_def Let_def rec_ok_def first_page_def last_page_def)

lemma open_new_other:
  "current_tfl (open_new v st n i p) = Some (length (tlfs st))"
  "warnings (open_new v st n i p) = warnings st"
  by (simp_all add: open_new_def Let_def)

lemma wf_last_ok: "wf_state st n \<Longrightarrow> tlfs st \<noteq> [] \<Longrightarrow> rec_ok (last (tlfs st)) \<and> last_page (last (tlfs st)) = n"
  by (simp add: wf_state_def list_all_iff)

lemma wf_scan_page:
  assumes "wf_state st n"
  shows "wf_state (scan_page v st n pg) (n + 1)"
  using assms
proof (cases rule: scan_page_cases[where pg = pg and v = v])
  case skip
  then show ?thesis using assms by (simp add: wf_state_def)
next
  case (extend k)
  then have ne: "tlfs st \<noteq> []" by auto
  from wf_last_ok[OF assms ne] extend_current_tlfs[OF extend(2)]
  obtain r' where r': "tlfs (extend_current st k n) = butlast (tlfs st) @ [r']"
    "first_page r' = first_page (last (tlfs st))" "last_page r' = n + 1" "rec_ok r'"
    by blast
  obtain bs l where bl: "tlfs st = bs @ [l]"
    using ne by (metis append_butlast_last_id)
  show ?thesis
    unfolding extend(4) wf_state_def
    using assms r' extend(1,2) bl
    by (simp add: extend_current_other chain_snoc wf_state_def)
next
  case (opened tfl_id)
  obtain r' where r': "tlfs (open_new v st n tfl_id (parse_tfl_page pg)) = tlfs st @ [r']"
    "first_page r' = n + 1" "last_page r' = n + 1" "rec_ok r'"
    using open_new_tlfs by blast
  show ?thesis
    unfolding opened(3) wf_state_def
    using r' assms
    by (simp add: open_new_other chain_snoc wf_state_def)
qed

lemma wf_log: "wf_state (st\<lparr>log := l\<rparr>) n = wf_state st n"
  by (simp add: wf_state_def split: option.splits)

lemma wf_scan_loop:
  "wf_state st n \<Longrightarrow>
   wf_state (scan_loop v st n pages)
            (n + int (length (takeWhile (\<lambda>t. \<not> is_termination t) pages)))"
proof (induction pages arbitrary: st n)
  case Nil
  then show ?case by simp
next
  case (Cons pg rest)
  show ?case
  proof (cases "is_termination pg")
    case True
    with Cons.prems show ?thesis by (simp add: wf_log)
  next
    case False
    from Cons.IH[OF wf_scan_page[OF Cons.prems, of v pg]] False
    show ?thesis by (simp add: algebra_simps)
  qed
qed

lemma scan_page_shape:
  assumes "wf_state st n"
  obtains
    (skip) "tlfs st = []" "current_tfl st = None" "p_id (parse_tfl_page pg) = None"
      "page_target st pg = None"
      "tlfs (scan_page v st n pg) = []" "current_tfl (scan_page v st n pg) = None"
      "warnings (scan_page v st n pg) = warnings st + 1"
  | (extend) bs l r' where "tlfs st = bs @ [l]" "current_tfl st = Some (length bs)"
      "page_target st pg = Some (length bs)"
      "tlfs (scan_page v st n pg) = bs @ [r']"
      "current_tfl (scan_page v st n pg) = Some (length bs)"
      "warnings (scan_page v st n pg) = warnings st"
      "first_page r' = first_page l" "last_page l = n" "last_page r' = n + 1"
      "t_page_count r' = t_page_count l + 1"
  | (opened) r' where "p_id (parse_tfl_page pg) \<noteq> None"
      "page_target st pg = Some (length (tlfs st))"
      "tlfs (scan_page v st n pg) = tlfs st @ [r']"
      "current_tfl (scan_page v st n pg) = Some (length (tlfs st))"
      "warnings (scan_page v st n pg) = warnings st"
      "first_page r' = n + 1" "last_page r' = n + 1" "t_page_count r' = 1"
  using assms
proof (cases rule: scan_page_cases[where pg = pg and v = v])
  case skip
  then show ?thesis by (intro that(1)) simp_all
next
  case (extend k)
  then have ne: "tlfs st \<noteq> []" by auto
  then obtain bs l where bl: "tlfs st = bs @ [l]"
    by (metis append_butlast_last_id)
  with extend(2) have k: "k = length bs" by simp
  from wf_last_ok[OF assms ne] extend_current_tlfs[OF extend(2)]
  obtain r' where r': "tlfs (extend_current st k n) = butlast (tlfs st) @ [r']"
    "first_page r' = first_page (last (tlfs st))" "last_page r' = n + 1"
    "t_page_count r' = t_page_count (last (tlfs st)) + 1"
    by blast
  show ?thesis
    using extend r' bl k wf_last_ok[OF assms ne]
    by (intro that(2)[of bs l r']) (simp_all add: extend_current_other)
next
  case (opened tfl_id)
  obtain r' where r': "tlfs (open_new v st n tfl_id (parse_tfl_page pg)) = tlfs st @ [r']"
    "first_page r' = n + 1" "last_page r' = n + 1" "t_page_count r' = 1"
    using open_new_tlfs by blast
  show ?thesis
    using opened r'
    by (intro that(3)[of r']) (simp_all add: open_new_other)
qed

lemma scan_page_mono:
  assumes "wf_state st n" "i < length (tlfs st)"
  shows "i < length (tlfs (scan_page v st n pg))
         \<and> first_page (tlfs (scan_page v st n pg) ! i) = first_page (tlfs st ! i)
         \<and> last_page (tlfs st ! i) \<le> last_page (tlfs (scan_page v st n pg) ! i)"
  using assms(1)
proof (cases rule: scan_page_shape[where pg = pg and v = v])
  case skip
  with assms(2) show ?thesis by simp
next
  case (extend bs l r')
  with assms(2) show ?thesis by (auto simp: nth_append)
next
  case (opened r')
  with assms(2) show ?thesis by (simp add: nth_append)
qed

lemma scan_loop_mono:
  "wf_state st n \<Longrightarrow> i < length (tlfs st) \<Longrightarrow>
   i < length (tlfs (scan_loop v st n pages))
   \<and> first_page (tlfs (scan_loop v st n pages) ! i) = first_page (tlfs st ! i)
   \<and> last_page (tlfs st ! i) \<le> last_page (tlfs (scan_loop v st n pages) ! i)"
proof (induction pages arbitrary: st n)
  case Nil
  then show ?case by simp
next
  case (Cons pg rest)
  show ?case
  proof (cases "is_termination pg")
    case True
    with Cons.prems show ?thesis by simp
  next
    case False
    note m = scan_page_mono[OF Cons.prems, of v pg]
    from m have i: "i < length (tlfs (scan_page v st n pg))" by simp
    from Cons.IH[OF wf_scan_page[OF Cons.prems(1), of v pg] i] m False
    show ?thesis by auto
  qed
qed

lemma count_scan_loop:
  "wf_state st n \<Longrightarrow> i < length (tlfs (scan_loop v st n pages)) \<Longrightarrow>
   t_page_count (tlfs (scan_loop v st n pages) ! i) =
     (if i < length (tlfs st) then t_page_count (tlfs st ! i) else 0)
     + int (count_list (fold_trace v st n pages) (Some i))"
proof (induction pages arbitrary: st n)
  case Nil
  then show ?case by simp
next
  case (Cons pg rest)
  show ?case
  proof (cases "is_termination pg")
    case True
    with Cons.prems show ?thesis by simp
  next
    case False
    let ?st1 = "scan_page v st n pg"
    from Cons.prems(2) False have i: "i < length (tlfs (scan_loop v ?st1 (n + 1) rest))" by simp
    note IH = Cons.IH[OF wf_scan_page[OF Cons.prems(1), of v pg] i]
    from Cons.prems(1) show ?thesis
    proof (cases rule: scan_page_shape[where pg = pg and v = v])
      case skip
      with IH False show ?thesis by simp
    next
      case (extend bs l r')
      with IH False show ?thesis by (auto simp: nth_append)
    next
      case (opened r')
      with IH False show ?thesis by (auto simp: nth_append)
    qed
  qed
qed

lemma trace_range:
  "wf_state st n \<Longrightarrow> j < length (fold_trace v st n pages) \<Longrightarrow>
   fold_trace v st n pages ! j = Some k \<Longrightarrow>
   k < length (tlfs (scan_loop v st n pages))
   \<and> first_page (tlfs (scan_loop v st n pages) ! k) \<le> n + 1 + int j
   \<and> n + 1 + int j \<le> last_page (tlfs (scan_loop v st n pages) ! k)"
proof (induction pages arbitrary: st n j)
  case Nil
  then show ?case by simp
next
  case (Cons pg rest)
  show ?case
  proof (cases "is_termination pg")
    case True
    with Cons.prems show ?thesis by simp
  next
    case False
    let ?st1 = "scan_page v st n pg"
    note wf1 = wf_scan_page[OF Cons.prems(1), of v pg]
    show ?thesis
    proof (cases j)
      case 0
      with Cons.prems(3) False have tgt: "page_target st pg = Some k" by simp
      from Cons.prems(1) tgt have
        "k < length (tlfs ?st1) \<and> first_page (tlfs ?st1 ! k) \<le> n + 1
         \<and> last_page (tlfs ?st1 ! k) = n + 1"
      proof (cases rule: scan_page_shape[where pg = pg and v = v])
        case skip
        with tgt show ?thesis by simp
      next
        case (extend bs l r')
        have "rec_ok l" using Cons.prems(1) extend(1) by (simp add: wf_state_def)
        then have "first_page l \<le> last_page l" by (simp add: rec_ok_def)
        with extend tgt show ?thesis by (auto simp: nth_append)
      next
        case (opened r')
        with tgt show ?thesis by (auto simp: nth_append)
      qed
      with scan_loop_mono[OF wf1, of k v rest] 0 False
      show ?thesis by auto
    next
      case (Suc j')
      with Cons.prems False have
        "j' < length (fold_trace v ?st1 (n + 1) rest)"
        "fold_trace v ?st1 (n + 1) rest ! j' = Some k" by simp_all
      from Cons.IH[OF wf1 this] Suc False show ?thesis by (simp add: algebra_simps)
    qed
  qed
qed

subsection \<open>The whole scan\<close>

lemma scan_loop_prefix:
  "\<forall>t \<in> set xs. \<not> is_termination t \<Longrightarrow>
   scan_loop v st n (xs @ ys) = scan_loop v (scan_loop v st n xs) (n + int (length xs)) ys"
  by (induction xs arbitrary: st n) (simp_all add: algebra_simps)

lemma length_fold_trace:
  "length (fold_trace v st n pages) = length (takeWhile (\<lambda>t. \<not> is_termination t) pages)"
  by (induction pages arbitrary: st n) auto

lemma scan_page_keeps_open:
  "current_tfl st \<noteq> None \<Longrightarrow>
   current_tfl (scan_page v st n pg) \<noteq> None \<and> warnings (scan_page v st n pg) = warnings st
   \<and> page_target st pg \<noteq> None"
  by (auto simp: scan_page_def page_target_def no_id_page_def extend_current_def open_new_def
      Let_def split: option.splits)

lemma scan_loop_keeps_open:
  "current_tfl st \<noteq> None \<Longrightarrow>
   current_tfl (scan_loop v st n pages) \<noteq> None
   \<and> warnings (scan_loop v st n pages) = warnings st
   \<and> None \<notin> set (fold_trace v st n pages)"
proof (induction pages arbitrary: st n)
  case Nil
  then show ?case by simp
next
  case (Cons pg rest)
  show ?case
  proof (cases "is_termination pg")
    case True
    with Cons.prems show ?thesis by simp
  next
    case False
    note s = scan_page_keeps_open[OF Cons.prems, of v n pg]
    from s have "current_tfl (scan_page v st n pg) \<noteq> None" by simp
    from Cons.IH[OF this, of "n + 1"] s False show ?thesis by auto
  qed
qed

lemma scan_from_empty:
  assumes "wf_state st n" "tlfs st = []"
  shows "warnings (scan_loop v st n pages) = warnings st + int (length (takeWhile (\<lambda>t. p_id (parse_tfl_page t) = None) (takeWhile (\<lambda>t. \<not> is_termination t) pages)))
    \<and> take (length (takeWhile (\<lambda>t. p_id (parse_tfl_page t) = None) (takeWhile (\<lambda>t. \<not> is_termination t) pages))) (fold_trace v st n pages) = replicate (length (takeWhile (\<lambda>t. p_id (parse_tfl_page t) = None) (takeWhile (\<lambda>t. \<not> is_termination t) pages))) None
    \<and> None \<notin> set (drop (length (takeWhile (\<lambda>t. p_id (parse_tfl_page t) = None) (takeWhile (\<lambda>t. \<not> is_termination t) pages))) (fold_trace v st n pages))
    \<and> ((tlfs (scan_loop v st n pages) = []) = (length (takeWhile (\<lambda>t. p_id (parse_tfl_page t) = None) (takeWhile (\<lambda>t. \<not> is_termination t) pages)) = length (takeWhile (\<lambda>t. \<not> is_termination t) pages)))
    \<and> (tlfs (scan_loop v st n pages) \<noteq> [] \<longrightarrow>
         first_page (hd (tlfs (scan_loop v st n pages))) = n + 1 + int (length (takeWhile (\<lambda>t. p_id (parse_tfl_page t) = None) (takeWhile (\<lambda>t. \<not> is_termination t) pages))))"
  using assms
proof (induction pages arbitrary: st n)
  case Nil
  then show ?case by simp
next
  case (Cons pg rest)
  show ?case
  proof (cases "is_termination pg")
    case True
    with Cons.prems show ?thesis by simp
  next
    case False
    let ?st1 = "scan_page v st n pg"
    note wf1 = wf_scan_page[OF Cons.prems(1), of v pg]
    from Cons.prems(1) show ?thesis
    proof (cases rule: scan_page_shape[where pg = pg and v = v])
      case skip
      from Cons.IH[OF wf1 skip(5)] skip False show ?thesis
        by (simp add: algebra_simps)
    next
      case (extend bs l r')
      with Cons.prems(2) show ?thesis by simp
    next
      case (opened r')
      have cur: "current_tfl ?st1 \<noteq> None" using opened by simp
      have i0: "0 < length (tlfs ?st1)" using opened by simp
      note m = scan_loop_mono[OF wf1 i0, of v rest]
      note k = scan_loop_keeps_open[OF cur, of v "n + 1" rest]
      from m have ne: "tlfs (scan_loop v ?st1 (n + 1) rest) \<noteq> []" by auto
      have hd: "first_page (hd (tlfs (scan_loop v ?st1 (n + 1) rest))) = n + 1"
        using m ne opened Cons.prems(2) by (simp add: hd_conv_nth)
      from ne hd k opened False show ?thesis by simp
    qed
  qed
qed

lemma chain_nth:
  "chain ts \<Longrightarrow> Suc i < length ts \<Longrightarrow> first_page (ts ! Suc i) = last_page (ts ! i) + 1"
proof (induction ts arbitrary: i rule: chain.induct)
  case (3 r s rs)
  then show ?case by (cases i) auto
qed simp_all

lemma chain_ordered:
  assumes "chain ts" "list_all rec_ok ts"
  shows "i < j \<Longrightarrow> j < length ts \<Longrightarrow> last_page (ts ! i) < first_page (ts ! j)"
proof (induction j)
  case 0
  then show ?case by simp
next
  case (Suc j)
  have adj: "first_page (ts ! Suc j) = last_page (ts ! j) + 1"
    using chain_nth[OF assms(1)] Suc.prems by simp
  show ?case
  proof (cases "i = j")
    case True
    with adj show ?thesis by simp
  next
    case False
    with Suc have lt: "last_page (ts ! i) < first_page (ts ! j)" by simp
    have "rec_ok (ts ! j)" using assms(2) Suc.prems by (simp add: list_all_length)
    then have "first_page (ts ! j) \<le> last_page (ts ! j)" by (simp add: rec_ok_def)
    with lt adj show ?thesis by simp
  qed
qed

lemma chain_span:
  "chain ts \<Longrightarrow> list_all rec_ok ts \<Longrightarrow> ts \<noteq> [] \<Longrightarrow>
   first_page (hd ts) \<le> last_page (last ts)"
  by (induction ts rule: chain.induct) (auto simp: rec_ok_def)

lemma covers_chain:
  "chain ts \<Longrightarrow> list_all rec_ok ts \<Longrightarrow>
   covers ts p = (ts \<noteq> [] \<and> first_page (hd ts) \<le> p \<and> p \<le> last_page (last ts))"
proof (induction ts rule: chain.induct)
  case 1
  then show ?case by (simp add: covers_def)
next
  case (2 r)
  then show ?case by (simp add: covers_def)
next
  case (3 r s rs)
  have sp: "first_page s \<le> last_page (last (s # rs))"
    using chain_span[of "s # rs"] 3 by simp
  have r: "first_page r \<le> last_page r" using 3 by (simp add: rec_ok_def)
  have "covers (r # s # rs) p = ((first_page r \<le> p \<and> p \<le> last_page r) \<or> covers (s # rs) p)"
    by (simp add: covers_def)
  also have "\<dots> = ((first_page r \<le> p \<and> p \<le> last_page r)
                   \<or> (first_page s \<le> p \<and> p \<le> last_page (last (s # rs))))"
    using 3 by simp
  also have "\<dots> = (first_page r \<le> p \<and> p \<le> last_page (last (s # rs)))"
    using 3(2) sp r by auto
  finally show ?case by simp
qed

lemma wf_init: "wf_state (init_state l) n"
  by (simp add: wf_state_def init_state_def)

lemma wf_segment:
  "wf_state (segment v doc) (42 + int (length (scanned_pages doc)))"
  unfolding segment_def scanned_pages_def by (rule wf_scan_loop[OF wf_init])

lemma scan_from_init:
  "warnings (segment v doc) = int (length (skipped_pages doc))
   \<and> take (length (skipped_pages doc)) (segment_trace v doc)
       = replicate (length (skipped_pages doc)) None
   \<and> None \<notin> set (drop (length (skipped_pages doc)) (segment_trace v doc))
   \<and> ((tlfs (segment v doc) = []) = (length (skipped_pages doc) = length (scanned_pages doc)))
   \<and> (tlfs (segment v doc) \<noteq> [] \<longrightarrow>
        first_page (hd (tlfs (segment v doc))) = 43 + int (length (skipped_pages doc)))"
  using scan_from_empty[where st = "init_state (if v then [InfoNarrative] else [])" and n = 42
      and v = v and pages = "drop 42 doc", OF wf_init]
  by (simp add: segment_def segment_trace_def skipped_pages_def scanned_pages_def init_state_def)

subsection \<open>The classifier\<close>

lemma split_runs_from_hd:
  "sep = is_space \<Longrightarrow> hd (split_runs_from sep cur s) = rev cur @ take (ws2_index s) s"
  by (induction sep cur s rule: split_runs_from.induct) auto

lemma split_runs_from_nonempty: "split_runs_from sep cur s \<noteq> []"
  by (induction sep cur s rule: split_runs_from.induct) auto

lemma find_source_program_find:
  "find_source_program ls =
     (case find (\<lambda>l. startswith (lower l) ''source:'') ls of
        None \<Rightarrow> []
      | Some l \<Rightarrow> take (ws2_index (strip (drop (length ''source:'') l))) (strip (drop (length ''source:'') l)))"
  by (induction ls)
     (simp_all add: Let_def re_split_ws2_def split_runs_from_nonempty split_runs_from_hd)

lemma find_source_program_skip:
  "\<forall>l \<in> set ys. \<not> startswith (lower l) ''source:'' \<Longrightarrow>
   find_source_program (ys @ zs) = find_source_program zs"
  by (induction ys) auto

lemma last_lines_append:
  "length ys \<le> n \<Longrightarrow> last_lines n (xs @ ys) = drop (length xs - (n - length ys)) xs @ ys"
  by (simp add: last_lines_def)

lemma heading_T: "heading_match ''Table 14.1.1''"
  by code_simp

lemma type_T: "contains (lower ''Table 14.1.1'') ''table''"
  by code_simp

lemma pop_lines:
  "\<not> startswith (lower ''Table 14.1.1'') ''population:''"
  "\<not> startswith (lower ''Demographics'') ''population:''"
  "startswith (lower ''Population: Safety'') ''population:''"
  "strip (tl (dropWhile (\<lambda>c. c \<noteq> CHR '':'') ''Population: Safety'')) = ''Safety''"
  by code_simp+

lemma source_line:
  "find_source_program (''Source:   prog1.sas   02JUN2023'' # rest) = ''prog1.sas''"
proof -
  have "startswith (lower ''Source:   prog1.sas   02JUN2023'') ''source:''" by code_simp
  moreover have "hd (re_split_ws2 (strip (drop (length ''source:'')
      ''Source:   prog1.sas   02JUN2023''))) = ''prog1.sas''" by code_simp
  ultimately show ?thesis
    by (simp add: Let_def re_split_ws2_def split_runs_from_nonempty del: startswith.simps)
qed

lemma file_T: "out_file_name ''Table 14.1.1'' = ''pdf/Table_14.1.1.pdf''"
  by code_simp

subsection \<open>The validator\<close>

lemma check_file_entry:
  "\<exists>st'. check_file probe od st (entry e) = Inr st'
     \<and> filter is_page_finding (msgs st') = filter is_page_finding (msgs st)
     \<and> checks st' No_page_gaps = checks st No_page_gaps
     \<and> checks st' No_page_overlaps = checks st No_page_overlaps
     \<and> expected_next_page st' = expected_next_page st"
  by (cases e)
     (auto simp: check_file_def entry_def get_id_def log_fail_def is_page_finding_def Let_def
       split: file_status.splits)

lemma check_pages_first:
  "expected_next_page st = None \<Longrightarrow>
   check_pages st (entry (f, l, i, fl, n)) = Inr (st\<lparr> expected_next_page := Some (l + 1) \<rparr>)"
  by (simp add: check_pages_def unpack_pages_def entry_def)

lemma check_pages_next:
  "expected_next_page st = Some (l0 + 1) \<Longrightarrow>
   \<exists>st'. check_pages st (entry (f, l, i, fl, n)) = Inr st'
     \<and> msgs st' = msgs st @ page_findings [(f0, l0, i0), (f, l, i)]
     \<and> checks st' No_page_gaps
         = (checks st No_page_gaps \<and> \<not> list_ex is_gap (page_findings [(f0, l0, i0), (f, l, i)]))
     \<and> checks st' No_page_overlaps
         = (checks st No_page_overlaps
            \<and> \<not> list_ex is_overlap (page_findings [(f0, l0, i0), (f, l, i)]))
     \<and> expected_next_page st' = Some (l + 1)"
  by (auto simp: check_pages_def unpack_pages_def entry_def get_id_def log_fail_def
      is_gap_def is_overlap_def)

lemma page_findings_all: "list_all is_page_finding (page_findings rs)"
  by (induction rs rule: page_findings.induct) (auto simp: is_page_finding_def)

lemma filter_page_findings: "filter is_page_finding (page_findings rs) = page_findings rs"
  using page_findings_all[of rs] by (simp add: list_all_iff)

lemma page_findings_Cons:
  "page_findings (a # b # rest) = page_findings [a, b] @ page_findings (b # rest)"
  by (cases a; cases b) auto

lemma validate_from:
  "expected_next_page st = Some (l0 + 1) \<Longrightarrow>
   \<exists>st'. validate_tlfs probe od st (map entry es) = Inr st'
     \<and> filter is_page_finding (msgs st')
         = filter is_page_finding (msgs st) @ page_findings ((f0, l0, i0) # map range_of es)
     \<and> checks st' No_page_gaps
         = (checks st No_page_gaps
            \<and> \<not> list_ex is_gap (page_findings ((f0, l0, i0) # map range_of es)))
     \<and> checks st' No_page_overlaps
         = (checks st No_page_overlaps
            \<and> \<not> list_ex is_overlap (page_findings ((f0, l0, i0) # map range_of es)))"
proof (induction es arbitrary: st f0 l0 i0)
  case Nil
  then show ?case by simp
next
  case (Cons e es)
  obtain f l i fl n where e: "e = (f, l, i, fl, n)" by (cases e) auto
  from check_pages_next[OF Cons.prems, of f l i fl n f0 i0]
  obtain st1 where st1: "check_pages st (entry (f, l, i, fl, n)) = Inr st1"
    "msgs st1 = msgs st @ page_findings [(f0, l0, i0), (f, l, i)]"
    "checks st1 No_page_gaps
       = (checks st No_page_gaps \<and> \<not> list_ex is_gap (page_findings [(f0, l0, i0), (f, l, i)]))"
    "checks st1 No_page_overlaps
       = (checks st No_page_overlaps
          \<and> \<not> list_ex is_overlap (page_findings [(f0, l0, i0), (f, l, i)]))"
    "expected_next_page st1 = Some (l + 1)"
    by blast
  from check_file_entry[of probe od st1 "(f, l, i, fl, n)"]
  obtain st2 where st2: "check_file probe od st1 (entry (f, l, i, fl, n)) = Inr st2"
    "filter is_page_finding (msgs st2) = filter is_page_finding (msgs st1)"
    "checks st2 No_page_gaps = checks st1 No_page_gaps"
    "checks st2 No_page_overlaps = checks st1 No_page_overlaps"
    "expected_next_page st2 = Some (l + 1)"
    using st1(5) by auto
  from Cons.IH[OF st2(5), of f i]
  obtain st' where st': "validate_tlfs probe od st2 (map entry es) = Inr st'"
    "filter is_page_finding (msgs st')
       = filter is_page_finding (msgs st2) @ page_findings ((f, l, i) # map range_of es)"
    "checks st' No_page_gaps
       = (checks st2 No_page_gaps \<and> \<not> list_ex is_gap (page_findings ((f, l, i) # map range_of es)))"
    "checks st' No_page_overlaps
       = (checks st2 No_page_overlaps
          \<and> \<not> list_ex is_overlap (page_findings ((f, l, i) # map range_of es)))"
    by blast
  have split: "page_findings ((f0, l0, i0) # map range_of (e # es))
      = page_findings [(f0, l0, i0), (f, l, i)] @ page_findings ((f, l, i) # map range_of es)"
    using page_findings_Cons[of "(f0, l0, i0)" "(f, l, i)" "map range_of es"]
    by (simp add: e range_of_def)
  have run: "validate_tlfs probe od st (map entry (e # es)) = Inr st'"
    using st1(1) st2(1) st'(1) by (simp add: e)
  have m: "filter is_page_finding (msgs st')
      = filter is_page_finding (msgs st) @ page_findings ((f0, l0, i0) # map range_of (e # es))"
    unfolding split st'(2) st2(2) st1(2)
    by (simp only: filter_append filter_page_findings append_assoc)
  have g: "checks st' No_page_gaps
      = (checks st No_page_gaps
         \<and> \<not> list_ex is_gap (page_findings ((f0, l0, i0) # map range_of (e # es))))"
    unfolding split st'(3) st2(3) st1(3) by (auto simp del: page_findings.simps)
  have o: "checks st' No_page_overlaps
      = (checks st No_page_overlaps
         \<and> \<not> list_ex is_overlap (page_findings ((f0, l0, i0) # map range_of (e # es))))"
    unfolding split st'(4) st2(4) st1(4) by (auto simp del: page_findings.simps)
  from run m g o show ?case by blast
qed

subsection \<open>The extraction date\<close>

lemma length_str_nat: "n < 10 ^ w \<Longrightarrow> 0 < w \<Longrightarrow> length (str_nat n) \<le> w"
proof (induction w arbitrary: n)
  case 0
  then show ?case by simp
next
  case (Suc w)
  show ?case
  proof (cases "n < 10")
    case True
    then show ?thesis by (simp add: str_nat.simps[of n])
  next
    case False
    with Suc.prems have d: "n div 10 < 10 ^ w" by simp
    from False d have "0 < w" by (cases w) auto
    from Suc.IH[OF d this] False show ?thesis by (simp add: str_nat.simps[of n])
  qed
qed

lemma length_zpad: "n < 10 ^ w \<Longrightarrow> 0 < w \<Longrightarrow> length (zpad w n) = w"
  using length_str_nat[of n w] by (simp add: zpad_def)

lemma take_all_but: "length b = k \<Longrightarrow> take (length (a @ b) - k) (a @ b) = a"
  by simp

lemma extraction_date_fraction:
  assumes "0 < microsecond now" "microsecond now < 1000000"
  shows "extraction_date_of now =
           zpad 4 (year now) @ ''-'' @ zpad 2 (month now) @ ''-'' @ zpad 2 (day now) @ ''T''
           @ zpad 2 (hour now) @ '':'' @ zpad 2 (minute now) @ '':'' @ zpad 2 (second now) @ ''Z''"
proof -
  let ?a = "zpad 4 (year now) @ ''-'' @ zpad 2 (month now) @ ''-'' @ zpad 2 (day now) @ ''T''
           @ zpad 2 (hour now) @ '':'' @ zpad 2 (minute now) @ '':'' @ zpad 2 (second now)"
  let ?b = "''.'' @ zpad 6 (microsecond now) @ ''+00:00''"
  have six: "length (zpad 6 (microsecond now)) = 6"
    using length_zpad[of "microsecond now" 6] assms(2) by simp
  have lb: "length ?b = 13" using six by simp
  have iso: "isoformat now = ?a @ ?b"
    using assms(1) by (simp add: isoformat_def)
  have "take (length (?a @ ?b) - 13) (?a @ ?b) = ?a"
    by (rule take_all_but[OF lb])
  then show ?thesis
    unfolding extraction_date_of_def Let_def iso by (simp only: append_assoc)
qed

lemma zpad_samples:
  "zpad 4 2023 = ''2023''" "zpad 2 6 = ''06''" "zpad 2 2 = ''02''"
  "zpad 2 12 = ''12''" "zpad 2 34 = ''34''" "zpad 2 56 = ''56''"
  by code_simp+

lemma extraction_date_sample: "extraction_date_of sample_now = ''2023-06-02T12:34:56Z''"
proof -
  have "0 < microsecond sample_now" "microsecond sample_now < 1000000"
    by (simp_all add: sample_now_def)
  from extraction_date_fraction[OF this] show ?thesis
    by (simp add: sample_now_def zpad_samples)
qed

subsection \<open>The writes of the driver\<close>





subsection \<open>The sample document\<close>

lemma sample_len: "length (tlfs (segment False sample_doc)) = 2"
  by code_simp

lemma sample_skipped: "length (skipped_pages sample_doc) = 1"
  by code_simp

lemma sample_scanned: "length (scanned_pages sample_doc) = 4"
  by code_simp

section \<open>The claims\<close>

subsection \<open>C1: page ranges of the records\<close>

text \<open>
  C1, as stated, says that the records cover the pages from page 43 on. A scanned page
  without a TLF id that comes before the first record is skipped (with a warning) and
  belongs to no record: in \<open>late_start_doc\<close> page 43 is neither a termination page nor
  covered.
\<close>

theorem late_start_not_covered:
  "length late_start_doc = 44 \<and> \<not> is_termination (late_start_doc ! 42)
   \<and> \<not> is_termination (late_start_doc ! 43)
   \<and> \<not> covers (tlfs (segment False late_start_doc)) 43"
  by code_simp

text \<open>
  C1, amended: for every document, the records of the scan are in page order, each
  record starts on the page after the previous record's last page, the ranges are
  non-empty and pairwise disjoint, and a page is covered by a record exactly when it
  lies between the first scanned page with a TLF id (page 43 plus the number of skipped
  pages) and the page before the termination page, or the last page of the document
  when there is no termination page.
\<close>

theorem tlf_ranges_partition:
  "(\<forall>i. Suc i < length (tlfs (segment v doc)) \<longrightarrow>
        first_page (tlfs (segment v doc) ! Suc i) = last_page (tlfs (segment v doc) ! i) + 1)
   \<and> (\<forall>i j. i < j \<and> j < length (tlfs (segment v doc)) \<longrightarrow>
        last_page (tlfs (segment v doc) ! i) < first_page (tlfs (segment v doc) ! j))
   \<and> (\<forall>r \<in> set (tlfs (segment v doc)). first_page r \<le> last_page r)
   \<and> (\<forall>p. covers (tlfs (segment v doc)) p =
        (43 + int (length (skipped_pages doc)) \<le> p
         \<and> p \<le> 42 + int (length (scanned_pages doc))))"
proof -
  let ?ts = "tlfs (segment v doc)"
  from wf_segment[of v doc] have ch: "chain ?ts" and ok: "list_all rec_ok ?ts"
    and lst: "?ts \<noteq> [] \<Longrightarrow> last_page (last ?ts) = 42 + int (length (scanned_pages doc))"
    by (simp_all add: wf_state_def)
  have adj: "\<forall>i. Suc i < length ?ts \<longrightarrow> first_page (?ts ! Suc i) = last_page (?ts ! i) + 1"
    using chain_nth[OF ch] by blast
  have ord: "\<forall>i j. i < j \<and> j < length ?ts \<longrightarrow> last_page (?ts ! i) < first_page (?ts ! j)"
    using chain_ordered[OF ch ok] by blast
  have ne: "\<forall>r \<in> set ?ts. first_page r \<le> last_page r"
    using ok by (simp add: list_all_iff rec_ok_def)
  have cov: "covers ?ts p =
      (43 + int (length (skipped_pages doc)) \<le> p \<and> p \<le> 42 + int (length (scanned_pages doc)))"
    for p
  proof (cases "?ts = []")
    case True
    with scan_from_init[of v doc] have "length (skipped_pages doc) = length (scanned_pages doc)"
      by simp
    with True show ?thesis by (simp add: covers_def)
  next
    case False
    with scan_from_init[of v doc] have "first_page (hd ?ts) = 43 + int (length (skipped_pages doc))"
      by simp
    with covers_chain[OF ch ok, of p] lst[OF False] False show ?thesis by simp
  qed
  from cov have cov': "\<forall>p. covers ?ts p =
      (43 + int (length (skipped_pages doc)) \<le> p \<and> p \<le> 42 + int (length (scanned_pages doc)))"
    by blast
  show ?thesis
    by (intro conjI) (fact adj, fact ord, fact ne, fact cov')
qed

theorem tlf_ranges_partition_witness:
  "Suc 0 < length (tlfs (segment False sample_doc))
   \<and> first_page (tlfs (segment False sample_doc) ! Suc 0)
       = last_page (tlfs (segment False sample_doc) ! 0) + 1
   \<and> last_page (tlfs (segment False sample_doc) ! 0)
       < first_page (tlfs (segment False sample_doc) ! 1)
   \<and> hd (tlfs (segment False sample_doc)) \<in> set (tlfs (segment False sample_doc))
   \<and> first_page (hd (tlfs (segment False sample_doc)))
       \<le> last_page (hd (tlfs (segment False sample_doc)))
   \<and> \<not> covers (tlfs (segment False sample_doc)) 43
   \<and> covers (tlfs (segment False sample_doc)) 44
   \<and> covers (tlfs (segment False sample_doc)) 46
   \<and> \<not> covers (tlfs (segment False sample_doc)) 47"
proof -
  have ne: "tlfs (segment False sample_doc) \<noteq> []" using sample_len by auto
  show ?thesis
    using tlf_ranges_partition[of False sample_doc] sample_len sample_skipped sample_scanned ne
    by simp
qed

subsection \<open>C2: the page checks of the validator\<close>

text \<open>
  C2, as stated, says that the validator checks that the page ranges begin at page 43.
  The loop compares each record with the previous one only (\<open>expected_next_page\<close> is
  \<open>None\<close> at the first record): a manifest whose only TLF is on page 50 passes with no
  finding and every check still true.
\<close>

theorem first_page_not_checked:
  "validate_tlfs all_pdfs ''out'' (init_vstate all_pass []) (map entry late_start_manifest)
     = Inr \<lparr> checks = all_pass, msgs = [], expected_next_page = Some 51 \<rparr>
   \<and> j_pages_in_source (entry (hd late_start_manifest)) = Some [50, 50]"
  by (simp add: late_start_manifest_def entry_def init_vstate_def check_pages_def
      unpack_pages_def check_file_def all_pdfs_def path_join_def Let_def)

text \<open>
  C2, amended: for every manifest whose \<open>tlfs\<close> entries carry an id and a two-element
  \<open>pages_in_source\<close>, the validator's loop ends without an exception, and its page
  findings are exactly those of walking the list in manifest order: a page gap at a record
  whose firstPage exceeds the previous record's lastPage + 1, a page overlap at one whose
  firstPage is less; \<open>no_page_gaps\<close> and \<open>no_page_overlaps\<close> fail exactly when such a
  finding exists. Where the first record begins is not checked. The witness is
  Scenario 4: A on pages 43 to 44 and B on page 46 give a page gap before B, expected 45,
  got 46.
\<close>

theorem validator_page_checks:
  "\<exists>st. validate_tlfs probe output_dir (init_vstate c m) (map entry es) = Inr st
     \<and> filter is_page_finding (msgs st)
         = filter is_page_finding m @ page_findings (map range_of es)
     \<and> checks st No_page_gaps
         = (c No_page_gaps \<and> \<not> list_ex is_gap (page_findings (map range_of es)))
     \<and> checks st No_page_overlaps
         = (c No_page_overlaps \<and> \<not> list_ex is_overlap (page_findings (map range_of es)))"
proof (cases es)
  case Nil
  then show ?thesis by (simp add: init_vstate_def)
next
  case (Cons e es')
  obtain f l i fl n where e: "e = (f, l, i, fl, n)" by (cases e) auto
  let ?st1 = "(init_vstate c m)\<lparr> expected_next_page := Some (l + 1) \<rparr>"
  have s1: "check_pages (init_vstate c m) (entry (f, l, i, fl, n)) = Inr ?st1"
    by (rule check_pages_first) (simp add: init_vstate_def)
  from check_file_entry[of probe output_dir ?st1 "(f, l, i, fl, n)"]
  obtain st2 where st2: "check_file probe output_dir ?st1 (entry (f, l, i, fl, n)) = Inr st2"
    "filter is_page_finding (msgs st2) = filter is_page_finding m"
    "checks st2 No_page_gaps = c No_page_gaps"
    "checks st2 No_page_overlaps = c No_page_overlaps"
    "expected_next_page st2 = Some (l + 1)"
    by (auto simp: init_vstate_def)
  from validate_from[OF st2(5), of probe output_dir es' f i]
  obtain st' where st': "validate_tlfs probe output_dir st2 (map entry es') = Inr st'"
    "filter is_page_finding (msgs st')
       = filter is_page_finding (msgs st2) @ page_findings ((f, l, i) # map range_of es')"
    "checks st' No_page_gaps
       = (checks st2 No_page_gaps
          \<and> \<not> list_ex is_gap (page_findings ((f, l, i) # map range_of es')))"
    "checks st' No_page_overlaps
       = (checks st2 No_page_overlaps
          \<and> \<not> list_ex is_overlap (page_findings ((f, l, i) # map range_of es')))"
    by blast
  have r: "map range_of es = (f, l, i) # map range_of es'"
    by (simp add: Cons e range_of_def)
  have run: "validate_tlfs probe output_dir (init_vstate c m) (map entry es) = Inr st'"
    using s1 st2(1) st'(1) by (simp add: Cons e)
  from run st'(2,3,4) st2(2,3,4) r show ?thesis by simp
qed

theorem validator_page_checks_witness:
  "\<exists>st. validate_tlfs all_pdfs ''out'' (init_vstate all_pass []) (map entry scenario_4) = Inr st
     \<and> filter is_page_finding (msgs st) = [PageGap ''B'' 45 46]
     \<and> \<not> checks st No_page_gaps \<and> checks st No_page_overlaps
     \<and> render_finding (PageGap ''B'' 45 46) = ''Page gap before B (expected 45, got 46)''"
proof -
  have pf: "page_findings (map range_of scenario_4) = [PageGap ''B'' 45 46]"
    by (simp add: scenario_4_def range_of_def)
  have rf: "render_finding (PageGap ''B'' 45 46) = ''Page gap before B (expected 45, got 46)''"
    by code_simp
  from validator_page_checks[of all_pdfs "''out''" all_pass "[]" scenario_4]
  show ?thesis
    unfolding pf using rf by (simp add: all_pass_def is_gap_def is_overlap_def)
qed

subsection \<open>C3: page counts\<close>

text \<open>
  C3: after any number of iterations of the scan (the state after the pages up to page
  \<open>m\<close> is the result of scanning \<open>take m doc\<close>, see \<open>scan_loop_prefix\<close>) and so also at
  its end, every record's \<open>page_count\<close> is \<open>lastPage - firstPage + 1\<close> and is the number
  of pages the loop folded into that record.
\<close>

theorem page_count_matches:
  assumes "i < length (tlfs (segment v (take m doc)))"
  shows "t_page_count (tlfs (segment v (take m doc)) ! i)
           = last_page (tlfs (segment v (take m doc)) ! i)
             - first_page (tlfs (segment v (take m doc)) ! i) + 1
         \<and> t_page_count (tlfs (segment v (take m doc)) ! i)
           = int (count_list (segment_trace v (take m doc)) (Some i))"
proof -
  let ?d = "take m doc"
  from wf_segment[of v ?d] assms have "rec_ok (tlfs (segment v ?d) ! i)"
    by (simp add: wf_state_def list_all_length)
  then have a: "t_page_count (tlfs (segment v ?d) ! i)
      = last_page (tlfs (segment v ?d) ! i) - first_page (tlfs (segment v ?d) ! i) + 1"
    by (simp add: rec_ok_def)
  have b: "t_page_count (tlfs (segment v ?d) ! i) = int (count_list (segment_trace v ?d) (Some i))"
    using count_scan_loop[where st = "init_state (if v then [InfoNarrative] else [])" and n = 42
        and v = v and pages = "drop 42 ?d" and i = i, OF wf_init] assms
    by (simp add: segment_def segment_trace_def init_state_def)
  from a b show ?thesis by simp
qed

theorem page_count_matches_witness:
  "0 < length (tlfs (segment False (take 45 sample_doc)))
   \<and> t_page_count (tlfs (segment False (take 45 sample_doc)) ! 0)
       = last_page (tlfs (segment False (take 45 sample_doc)) ! 0)
         - first_page (tlfs (segment False (take 45 sample_doc)) ! 0) + 1
   \<and> t_page_count (tlfs (segment False (take 45 sample_doc)) ! 0)
       = int (count_list (segment_trace False (take 45 sample_doc)) (Some 0))
   \<and> t_page_count (tlfs (segment False (take 45 sample_doc)) ! 0) = 2"
proof -
  have h: "0 < length (tlfs (segment False (take 45 sample_doc)))" by code_simp
  have c: "t_page_count (tlfs (segment False (take 45 sample_doc)) ! 0) = 2" by code_simp
  from page_count_matches[OF h] h c show ?thesis by simp
qed

subsection \<open>C4: documents with fewer than 43 pages\<close>



subsection \<open>C5: dry run\<close>




subsection \<open>C6: Scenario 1\<close>

text \<open>
  C6: for every page text whose non-empty lines start with \<open>Table 14.1.1\<close>,
  \<open>Demographics\<close>, \<open>Population: Safety\<close> and have the line
  \<open>Source:   prog1.sas   02JUN2023\<close> among the last 15, with no line starting with
  \<open>source:\<close> below it, the classifier yields id \<open>Table 14.1.1\<close>, type table, title
  \<open>Demographics\<close>, population \<open>Safety\<close> and source program \<open>prog1.sas\<close>; when the
  page is page 43 (index 42, no record open) and not a termination page, the scan opens
  the record with pages 43 to 43 and page count 1.
\<close>

theorem scenario_1:
  assumes lines: "nonempty_lines text =
      ''Table 14.1.1'' # ''Demographics'' # ''Population: Safety'' # mid
      @ ''Source:   prog1.sas   02JUN2023'' # below"
    and short: "length below < 15"
    and below: "\<forall>l \<in> set below. \<not> startswith (lower l) ''source:''"
  shows "parse_tfl_page text =
           \<lparr> p_id = Some ''Table 14.1.1'', p_type = Some ''table'', p_title = ''Demographics'',
             p_population = ''Safety'', p_source_program = ''prog1.sas'' \<rparr>
         \<and> (\<not> is_termination text \<longrightarrow>
              tlfs (scan_loop v (init_state l0) 42 [text]) =
                [\<lparr> t_id = ''Table 14.1.1'', t_type = Some ''table'', t_title = ''Demographics'',
                   t_file = ''pdf/Table_14.1.1.pdf'', t_pages_in_source = [43, 43],
                   t_page_count = 1, t_population = ''Safety'',
                   t_source_program = Some ''prog1.sas'' \<rparr>])"
proof -
  let ?top = "[''Table 14.1.1'', ''Demographics'', ''Population: Safety''] @ mid"
  let ?S = "''Source:   prog1.sas   02JUN2023''"
  let ?ls = "nonempty_lines text"
  have ls: "?ls = ?top @ (?S # below)" using lines by simp
  have hd10: "take 10 ?ls = ''Table 14.1.1'' # ''Demographics'' # ''Population: Safety''
      # take 7 (mid @ ?S # below)"
    unfolding lines by simp
  have found: "find_heading 0 (take 10 ?ls) = Some (0, ''Table 14.1.1'')"
    unfolding hd10 using heading_T by simp
  have title: "1 < length ?ls \<and> ?ls ! 1 = ''Demographics''"
    unfolding lines by simp
  have pop: "find_population (take 10 ?ls) = ''Safety''"
    unfolding hd10 using pop_lines by (simp del: startswith.simps)
  have "last_lines 15 ?ls
      = drop (length ?top - (15 - length (?S # below))) ?top @ (?S # below)"
    unfolding ls by (rule last_lines_append) (use short in simp)
  then have "rev (last_lines 15 ?ls)
      = rev below @ ?S # rev (drop (length ?top - (15 - length (?S # below))) ?top)"
    by simp
  then have src: "find_source_program (rev (last_lines 15 ?ls)) = ''prog1.sas''"
    using find_source_program_skip[of "rev below"] below source_line by simp
  have parsed: "parse_tfl_page text =
           \<lparr> p_id = Some ''Table 14.1.1'', p_type = Some ''table'', p_title = ''Demographics'',
             p_population = ''Safety'', p_source_program = ''prog1.sas'' \<rparr>"
    unfolding parse_tfl_page_def parse_lines_def Let_def found pop src
    using title type_T by simp
  have rec: "tlfs (scan_loop v (init_state l0) 42 [text]) =
                [\<lparr> t_id = ''Table 14.1.1'', t_type = Some ''table'', t_title = ''Demographics'',
                   t_file = ''pdf/Table_14.1.1.pdf'', t_pages_in_source = [43, 43],
                   t_page_count = 1, t_population = ''Safety'',
                   t_source_program = Some ''prog1.sas'' \<rparr>]"
    if "\<not> is_termination text"
    using that
    by (simp add: scan_page_def parsed init_state_def open_new_def Let_def file_T)
  from parsed rec show ?thesis by blast
qed

theorem scenario_1_witness:
  "nonempty_lines scenario_1_text =
      ''Table 14.1.1'' # ''Demographics'' # ''Population: Safety'' # [''Age   N   Mean'']
      @ ''Source:   prog1.sas   02JUN2023'' # []
   \<and> \<not> is_termination scenario_1_text
   \<and> parse_tfl_page scenario_1_text =
           \<lparr> p_id = Some ''Table 14.1.1'', p_type = Some ''table'', p_title = ''Demographics'',
             p_population = ''Safety'', p_source_program = ''prog1.sas'' \<rparr>
   \<and> tlfs (scan_loop False (init_state []) 42 [scenario_1_text]) =
                [\<lparr> t_id = ''Table 14.1.1'', t_type = Some ''table'', t_title = ''Demographics'',
                   t_file = ''pdf/Table_14.1.1.pdf'', t_pages_in_source = [43, 43],
                   t_page_count = 1, t_population = ''Safety'',
                   t_source_program = Some ''prog1.sas'' \<rparr>]"
proof -
  have l: "nonempty_lines scenario_1_text =
      ''Table 14.1.1'' # ''Demographics'' # ''Population: Safety'' # [''Age   N   Mean'']
      @ ''Source:   prog1.sas   02JUN2023'' # []"
    by code_simp
  have nt: "\<not> is_termination scenario_1_text" by code_simp
  have s: "length ([] :: string list) < 15" by simp
  have b: "\<forall>l \<in> set ([] :: string list). \<not> startswith (lower l) ''source:''" by simp
  note t = scenario_1[OF l s b, of False "[]"]
  show ?thesis
    by (intro conjI) (fact l, fact nt, fact t[THEN conjunct1],
        fact t[THEN conjunct2, rule_format, OF nt])
qed

subsection \<open>C7: the source program\<close>

text \<open>
  C7, as stated, takes the first token of the text after \<open>source:\<close> split on runs of two
  or more spaces. The code first strips that text and splits on runs of two or more
  whitespace characters of any kind: with a single space after the colon the spec's
  wording keeps the space, and a run of space, tab, space ends the program name in the code
  only.
\<close>

theorem source_program_trimmed:
  "p_source_program (parse_tfl_page ''Source: prog.sas'')
     \<noteq> spec_source_program (nonempty_lines ''Source: prog.sas'')
   \<and> p_source_program (parse_tfl_page ''Source: prog.sas'') = ''prog.sas''
   \<and> spec_source_program (nonempty_lines ''Source: prog.sas'') = '' prog.sas''
   \<and> p_source_program (parse_tfl_page (''Source: prog.sas '' @ [CHR 0x09] @ '' 02JUN2023''))
       = ''prog.sas''
   \<and> spec_source_program (nonempty_lines (''Source: prog.sas '' @ [CHR 0x09] @ '' 02JUN2023''))
       = '' prog.sas '' @ [CHR 0x09] @ '' 02JUN2023''"
  by code_simp

text \<open>
  C7, amended: for every page text, the source program is found by scanning the last 15
  non-empty lines in reverse for the first line whose lowercase form starts with
  \<open>source:\<close>; it is the text after \<open>source:\<close>, stripped of surrounding whitespace, up to
  its first run of two or more whitespace characters, and it is empty (absent) when no
  such line exists among those 15 lines.
\<close>

theorem source_program_scan:
  "p_source_program (parse_tfl_page text) =
     (case find (\<lambda>l. startswith (lower l) ''source:'')
                (rev (last_lines 15 (nonempty_lines text))) of
        None \<Rightarrow> []
      | Some l \<Rightarrow> take (ws2_index (strip (drop (length ''source:'') l)))
                       (strip (drop (length ''source:'') l)))"
proof -
  have "p_source_program (parse_tfl_page text)
      = find_source_program (rev (last_lines 15 (nonempty_lines text)))"
    by (simp add: parse_tfl_page_def parse_lines_def Let_def)
  then show ?thesis
    by (simp only: find_source_program_find)
qed

subsection \<open>C8: output file names\<close>

text \<open>
  C8, as stated, says that the sanitised id is the id with its spaces removed. The code
  replaces each space by an underscore.
\<close>

theorem spaces_become_underscores:
  "out_file_name ''Table 14.1.1'' = ''pdf/Table_14.1.1.pdf''
   \<and> out_file_name ''Table 14.1.1'' \<noteq> ''pdf/'' @ spec_sanitize ''Table 14.1.1'' @ ''.pdf''"
  by code_simp

text \<open>
  C8, amended: every record's output file is \<open>pdf/<sanitized-id>.pdf\<close>, where the
  sanitised id is the record's id with each space replaced by an underscore and each
  newline removed; it contains no space and no newline and depends on the id only.
\<close>

theorem output_file_name:
  "(\<forall>r \<in> set (tlfs (segment v doc)). t_file r = ''pdf/'' @ safe_id (t_id r) @ ''.pdf'')
   \<and> safe_id i = concat (map (\<lambda>c. if c = CHR '' '' then ''_''
                                  else if c = CHR 0x0A then [] else [c]) i)
   \<and> CHR '' '' \<notin> set (safe_id i) \<and> CHR 0x0A \<notin> set (safe_id i)"
proof -
  from wf_segment[of v doc] have "list_all rec_ok (tlfs (segment v doc))"
    by (simp add: wf_state_def)
  then have a: "\<forall>r \<in> set (tlfs (segment v doc)). t_file r = ''pdf/'' @ safe_id (t_id r) @ ''.pdf''"
    by (simp add: list_all_iff rec_ok_def out_file_name_def)
  have b: "safe_id i = concat (map (\<lambda>c. if c = CHR '' '' then ''_''
                                  else if c = CHR 0x0A then [] else [c]) i)"
    unfolding safe_id_def by (induction i) auto
  show ?thesis
    by (intro conjI) (fact a, fact b, fact safe_id_no_space, fact safe_id_no_newline)
qed

theorem output_file_name_witness:
  "hd (tlfs (segment False sample_doc)) \<in> set (tlfs (segment False sample_doc))
   \<and> t_file (hd (tlfs (segment False sample_doc)))
       = ''pdf/'' @ safe_id (t_id (hd (tlfs (segment False sample_doc)))) @ ''.pdf''
   \<and> t_file (hd (tlfs (segment False sample_doc))) = ''pdf/Table_14.1.1.pdf''"
proof -
  have ne: "tlfs (segment False sample_doc) \<noteq> []" using sample_len by auto
  have f: "t_file (hd (tlfs (segment False sample_doc))) = ''pdf/Table_14.1.1.pdf''"
    by code_simp
  from output_file_name[of False sample_doc] ne f show ?thesis by simp
qed

subsection \<open>C9: the extraction date\<close>

text \<open>
  C9: \<open>extraction_date\<close> is meant to be the clock value as \<open>YYYY-MM-DDTHH:MM:SSZ\<close>. The
  code cuts the last 13 characters of \<open>isoformat()\<close>, which is the fraction and the
  offset only when the microsecond is not zero. At the clock value 2023-06-02 12:34:56
  with microsecond 0 the date of the manifest is \<open>2023-06-02T1Z\<close>.
\<close>

theorem extraction_date_whole_second:
  "extraction_date (build_manifest whole_second doc_name total_pages ts) = ''2023-06-02T1Z''"
proof -
  have "extraction_date_of whole_second = ''2023-06-02T1Z''" by code_simp
  then show ?thesis by (simp add: build_manifest_def)
qed

subsection \<open>C10: an opened record stays open\<close>

text \<open>
  C10: from any state of the scan with an open record, the rest of the scan ends with a
  record open, raises no warning and folds every page it processes into a record. For
  the scan of a document: the processed pages are the scanned pages (those before the
  first termination page); the pages without
  a target are exactly the skipped pages before the first record, and the warnings
  count them; every later processed page is counted in a record whose page range
  contains it, and in no other record's range.
\<close>

theorem open_record_stays_open:
  "(current_tfl st \<noteq> None \<longrightarrow>
      current_tfl (scan_loop v st n pages) \<noteq> None
      \<and> warnings (scan_loop v st n pages) = warnings st
      \<and> None \<notin> set (fold_trace v st n pages))
   \<and> length (segment_trace v doc) = length (scanned_pages doc)
   \<and> take (length (skipped_pages doc)) (segment_trace v doc)
       = replicate (length (skipped_pages doc)) None
   \<and> warnings (segment v doc) = int (length (skipped_pages doc))
   \<and> (\<forall>j. length (skipped_pages doc) \<le> j \<and> j < length (segment_trace v doc) \<longrightarrow>
        (\<exists>i. segment_trace v doc ! j = Some i \<and> i < length (tlfs (segment v doc))
           \<and> first_page (tlfs (segment v doc) ! i) \<le> 43 + int j
           \<and> 43 + int j \<le> last_page (tlfs (segment v doc) ! i)
           \<and> (\<forall>i'. i' < length (tlfs (segment v doc))
                 \<and> first_page (tlfs (segment v doc) ! i') \<le> 43 + int j
                 \<and> 43 + int j \<le> last_page (tlfs (segment v doc) ! i') \<longrightarrow> i' = i)))"
proof -
  let ?ts = "tlfs (segment v doc)"
  let ?tr = "segment_trace v doc"
  let ?k = "length (skipped_pages doc)"
  have stays: "current_tfl st \<noteq> None \<longrightarrow>
      current_tfl (scan_loop v st n pages) \<noteq> None
      \<and> warnings (scan_loop v st n pages) = warnings st
      \<and> None \<notin> set (fold_trace v st n pages)"
    using scan_loop_keeps_open by blast
  have len: "length ?tr = length (scanned_pages doc)"
    by (simp add: segment_trace_def scanned_pages_def length_fold_trace)
  from wf_segment[of v doc] have ch: "chain ?ts" and ok: "list_all rec_ok ?ts"
    by (simp_all add: wf_state_def)
  have pages: "\<exists>i. ?tr ! j = Some i \<and> i < length ?ts
           \<and> first_page (?ts ! i) \<le> 43 + int j \<and> 43 + int j \<le> last_page (?ts ! i)
           \<and> (\<forall>i'. i' < length ?ts \<and> first_page (?ts ! i') \<le> 43 + int j
                 \<and> 43 + int j \<le> last_page (?ts ! i') \<longrightarrow> i' = i)"
    if j: "?k \<le> j" "j < length ?tr" for j
  proof -
    have "drop ?k ?tr ! (j - ?k) = ?tr ! j" "j - ?k < length (drop ?k ?tr)"
      using j by simp_all
    then have "?tr ! j \<in> set (drop ?k ?tr)"
      by (metis nth_mem)
    moreover have "None \<notin> set (drop ?k ?tr)"
      using scan_from_init[of v doc] by simp
    ultimately have "?tr ! j \<noteq> None" by metis
    then obtain i where i: "?tr ! j = Some i" by auto
    have r: "i < length ?ts \<and> first_page (?ts ! i) \<le> 43 + int j
        \<and> 43 + int j \<le> last_page (?ts ! i)"
      using trace_range[where st = "init_state (if v then [InfoNarrative] else [])" and n = 42
          and v = v and pages = "drop 42 doc" and j = j and k = i, OF wf_init]
        j(2) i
      by (simp add: segment_def segment_trace_def init_state_def)
    have uniq: "i' = i" if i': "i' < length ?ts" "first_page (?ts ! i') \<le> 43 + int j"
      "43 + int j \<le> last_page (?ts ! i')" for i'
    proof (rule ccontr)
      assume "i' \<noteq> i"
      then consider "i' < i" | "i < i'" by linarith
      then show False
      proof cases
        case 1
        from chain_ordered[OF ch ok 1] r i' show False by simp
      next
        case 2
        from chain_ordered[OF ch ok 2 i'(1)] r i' show False by simp
      qed
    qed
    from i r uniq show ?thesis by blast
  qed
  have tk: "take ?k ?tr = replicate ?k None" and w: "warnings (segment v doc) = int ?k"
    using scan_from_init[of v doc] by simp_all
  from pages have pages': "\<forall>j. ?k \<le> j \<and> j < length ?tr \<longrightarrow>
        (\<exists>i. ?tr ! j = Some i \<and> i < length ?ts
           \<and> first_page (?ts ! i) \<le> 43 + int j \<and> 43 + int j \<le> last_page (?ts ! i)
           \<and> (\<forall>i'. i' < length ?ts \<and> first_page (?ts ! i') \<le> 43 + int j
                 \<and> 43 + int j \<le> last_page (?ts ! i') \<longrightarrow> i' = i))"
    by blast
  show ?thesis
    by (intro conjI) (fact stays, fact len, fact tk, fact w, fact pages')
qed

theorem open_record_stays_open_witness:
  "current_tfl (segment False (take 44 sample_doc)) \<noteq> None
   \<and> current_tfl (scan_loop False (segment False (take 44 sample_doc)) 44 (drop 44 sample_doc))
       \<noteq> None
   \<and> warnings (segment False sample_doc) = 1
   \<and> length (skipped_pages sample_doc) \<le> 1 \<and> 1 < length (segment_trace False sample_doc)
   \<and> (\<exists>i. segment_trace False sample_doc ! 1 = Some i
          \<and> first_page (tlfs (segment False sample_doc) ! i) \<le> 44
          \<and> 44 \<le> last_page (tlfs (segment False sample_doc) ! i))"
proof -
  let ?tr = "segment_trace False sample_doc"
  let ?ts = "tlfs (segment False sample_doc)"
  have h: "current_tfl (segment False (take 44 sample_doc)) \<noteq> None" by code_simp
  note t = open_record_stays_open[where st = "segment False (take 44 sample_doc)" and v = False
      and n = 44 and pages = "drop 44 sample_doc" and doc = sample_doc]
  note stays = t[THEN conjunct1, rule_format, OF h, THEN conjunct1]
  note len = t[THEN conjunct2, THEN conjunct1]
  note warn = t[THEN conjunct2, THEN conjunct2, THEN conjunct2, THEN conjunct1]
  note later = t[THEN conjunct2, THEN conjunct2, THEN conjunct2, THEN conjunct2, rule_format]
  have l4: "length ?tr = 4" using len sample_scanned by simp
  have w1: "warnings (segment False sample_doc) = 1" using warn sample_skipped by simp
  have p: "length (skipped_pages sample_doc) \<le> 1 \<and> 1 < length ?tr"
    using sample_skipped l4 by simp
  from later[OF p] obtain i where i: "?tr ! 1 = Some i"
    "first_page (?ts ! i) \<le> 43 + int 1" "43 + int 1 \<le> last_page (?ts ! i)"
    by blast
  then have e: "\<exists>i. ?tr ! 1 = Some i \<and> first_page (?ts ! i) \<le> 44 \<and> 44 \<le> last_page (?ts ! i)"
    by auto
  show ?thesis
    by (intro conjI) (fact h, fact stays, fact w1, fact p[THEN conjunct1],
        fact p[THEN conjunct2], fact e)
qed

end
